theory Spec2Isabelle
  imports Main "HOL-Library.Char_ord" "HOL-Library.List_Lexorder" "HOL-Library.Multiset"
begin

section \<open>Values of the collector: dates, review records, documents\<close>

text \<open>
  The review store of \<^verbatim>\<open>src/collector/storage.py\<close>. A review is a Python dict; the store
  is a set of JSON documents addressed by path (a local directory or a bucket, behind
  \<^verbatim>\<open>_read_json\<close> and \<^verbatim>\<open>_write_json\<close>). Exceptions are values: every function that can
  raise returns the exception together with the store as it stands at that moment.
\<close>

datatype py_error = KeyError | ValueError | AttributeError | TypeError

text \<open>
  A \<^verbatim>\<open>datetime.datetime\<close>: the civil fields and the UTC offset in minutes
  (\<open>None\<close> for a naive value).
\<close>

record datetime =
  year :: nat
  month :: nat
  day :: nat
  hour :: nat
  minute :: nat
  second :: nat
  microsecond :: nat
  tz :: "int option"

text \<open>
  The value under the key \<^verbatim>\<open>'date'\<close>: a string (what a JSON document holds), a
  datetime object (what the fetchers deliver) or Python's \<^verbatim>\<open>None\<close> (the Android fetcher
  when the scraper gives no time).
\<close>

datatype date_val = DStr string | DTime datetime | DNone

text \<open>
  A review dict. \<open>rid\<close>, \<open>date\<close> and \<open>country\<close> are read by subscript, so an absent key
  (\<open>None\<close> here) raises \<^verbatim>\<open>KeyError\<close>; \<open>version\<close> is read with \<^verbatim>\<open>r.get('version')\<close>, where
  an absent key and the value \<^verbatim>\<open>None\<close> are the same (\<open>None\<close> here). \<open>other\<close> holds the
  keys the store never reads (source, user name, rating, title, content).
\<close>

record review =
  rid :: "string option"
  date :: "date_val option"
  country :: "string option"
  version :: "string option"
  other :: "(string \<times> string) list"

text \<open>
  The index document \<^verbatim>\<open>{"updated_at": ..., "versions": {version: {country: [ym, ...]}}}\<close>.
\<close>

record index_doc =
  versions :: "string \<rightharpoonup> (string \<rightharpoonup> string list)"
  updated_at :: string

datatype doc = Reviews "review list" | Index index_doc

type_synonym store = "string \<rightharpoonup> doc"

section \<open>Python's datetime: ordering, \<^verbatim>\<open>strftime\<close>, \<^verbatim>\<open>str\<close>\<close>

definition is_leap :: "nat \<Rightarrow> bool" where
  "is_leap y = (y mod 4 = 0 \<and> (y mod 100 \<noteq> 0 \<or> y mod 400 = 0))"

definition days_before_year :: "nat \<Rightarrow> int" where
  "days_before_year y =
     (let p = int y - 1 in p * 365 + p div 4 - p div 100 + p div 400)"

definition days_before_month :: "nat \<Rightarrow> nat \<Rightarrow> int" where
  "days_before_month y m =
     [0, 0, 31, 59, 90, 120, 151, 181, 212, 243, 273, 304, 334] ! (min m 12)
       + (if 2 < m \<and> is_leap y then 1 else 0)"

definition ymd2ord :: "nat \<Rightarrow> nat \<Rightarrow> nat \<Rightarrow> int" where
  "ymd2ord y m d = days_before_year y + days_before_month y m + int d"

text \<open>
  The microseconds a datetime stands for: of its own wall clock when naive, of UTC when
  aware. Two naive or two aware datetimes compare as these numbers do.
\<close>

definition instant :: "datetime \<Rightarrow> int" where
  "instant d =
     (((ymd2ord (year d) (month d) (day d) * 24 + int (hour d)) * 60 + int (minute d)
        - (case tz d of None \<Rightarrow> 0 | Some off \<Rightarrow> off)) * 60 + int (second d)) * 1000000
       + int (microsecond d)"

text \<open>
  Python's \<^verbatim>\<open><\<close> on two date values; \<open>None\<close> is \<^verbatim>\<open>TypeError\<close> (a string against a
  datetime, a naive against an aware datetime, anything against \<^verbatim>\<open>None\<close>). Strings
  compare by code point, which is the byte order of their UTF-8 form.
\<close>

fun date_lt :: "date_val \<Rightarrow> date_val \<Rightarrow> bool option" where
  "date_lt (DStr a) (DStr b) = Some (a < b)"
| "date_lt (DTime a) (DTime b) =
     (if (tz a = None) = (tz b = None) then Some (instant a < instant b) else None)"
| "date_lt _ _ = None"

definition digit :: "nat \<Rightarrow> char" where
  "digit n = ''0123456789'' ! (n mod 10)"

definition pad2 :: "nat \<Rightarrow> string" where
  "pad2 n = [digit (n div 10), digit n]"

definition pad4 :: "nat \<Rightarrow> string" where
  "pad4 n = [digit (n div 1000), digit (n div 100), digit (n div 10), digit n]"

definition pad6 :: "nat \<Rightarrow> string" where
  "pad6 n = pad2 (n div 10000) @ pad4 n"

text \<open>A number in decimal, without padding.\<close>

fun dec :: "nat \<Rightarrow> string" where
  "dec n = (if n < 10 then [digit n] else dec (n div 10) @ [digit n])"

declare dec.simps [simp del]

text \<open>
  \<^verbatim>\<open>dt.strftime('%Y/%m')\<close>: the year and month fields of the value as it is, with no
  conversion to another zone. The C library prints \<^verbatim>\<open>%Y\<close> without padding (\<^verbatim>\<open>999/05\<close>
  for the year 999) and \<^verbatim>\<open>%m\<close> with two digits.
\<close>

definition strftime_ym :: "datetime \<Rightarrow> string" where
  "strftime_ym d = dec (year d) @ ''/'' @ pad2 (month d)"

text \<open>A year-month as \<^verbatim>\<open>strftime\<close> writes it holds one slash.\<close>

definition is_ym :: "string \<Rightarrow> bool" where
  "is_ym ym \<longleftrightarrow> length (filter (\<lambda>c. c = CHR ''/'') ym) = 1"

text \<open>
  \<^verbatim>\<open>str(dt)\<close>, which \<^verbatim>\<open>json.dump(..., default=str)\<close> writes for a datetime:
  \<^verbatim>\<open>YYYY-MM-DD HH:MM:SS[.ffffff][+HH:MM]\<close>.
\<close>

definition str_offset :: "int \<Rightarrow> string" where
  "str_offset off =
     (if off < 0 then ''-'' else ''+'') @ pad2 (nat \<bar>off\<bar> div 60) @ '':'' @ pad2 (nat \<bar>off\<bar> mod 60)"

definition str_datetime :: "datetime \<Rightarrow> string" where
  "str_datetime d =
     pad4 (year d) @ ''-'' @ pad2 (month d) @ ''-'' @ pad2 (day d) @ '' ''
       @ pad2 (hour d) @ '':'' @ pad2 (minute d) @ '':'' @ pad2 (second d)
       @ (if microsecond d = 0 then [] else ''.'' @ pad6 (microsecond d))
       @ (case tz d of None \<Rightarrow> [] | Some off \<Rightarrow> str_offset off)"

section \<open>The partition store: \<^verbatim>\<open>_read_json\<close> and \<^verbatim>\<open>_write_json\<close>\<close>

definition read_json :: "store \<Rightarrow> string \<Rightarrow> doc option" where
  "read_json s path = s path"

text \<open>What \<^verbatim>\<open>json.dump(data, default=str)\<close> makes of a review: a datetime becomes its string.\<close>

fun json_date :: "date_val \<Rightarrow> date_val" where
  "json_date (DTime d) = DStr (str_datetime d)"
| "json_date v = v"

definition json_review :: "review \<Rightarrow> review" where
  "json_review r = r\<lparr>date := map_option json_date (date r)\<rparr>"

fun json_doc :: "doc \<Rightarrow> doc" where
  "json_doc (Reviews rs) = Reviews (map json_review rs)"
| "json_doc (Index i) = Index i"

definition write_json :: "store \<Rightarrow> string \<Rightarrow> doc \<Rightarrow> store" where
  "write_json s path data = s(path \<mapsto> json_doc data)"

section \<open>\<^verbatim>\<open>save_reviews\<close>, step 1: grouping by country and year-month\<close>

text \<open>
  \<^verbatim>\<open>datetime.fromisoformat\<close> is a parameter \<open>fromiso\<close> of the model (\<open>None\<close> is its
  \<^verbatim>\<open>ValueError\<close>): the theorems hold for every parser.
\<close>

definition ym_of :: "(string \<Rightarrow> datetime option) \<Rightarrow> review \<Rightarrow> py_error + string" where
  "ym_of fromiso r =
     (case date r of
        None \<Rightarrow> Inl KeyError
      | Some (DStr str) \<Rightarrow>
          (case fromiso str of None \<Rightarrow> Inl ValueError | Some dt \<Rightarrow> Inr (strftime_ym dt))
      | Some (DTime dt) \<Rightarrow> Inr (strftime_ym dt)
      | Some DNone \<Rightarrow> Inl AttributeError)"

definition key_of :: "(string \<Rightarrow> datetime option) \<Rightarrow> review \<Rightarrow> py_error + (string \<times> string)" where
  "key_of fromiso r =
     (case ym_of fromiso r of
        Inl e \<Rightarrow> Inl e
      | Inr ym \<Rightarrow> (case country r of None \<Rightarrow> Inl KeyError | Some c \<Rightarrow> Inr (c, ym)))"

text \<open>
  The dict \<^verbatim>\<open>grouped\<close>, in insertion order: a new key goes to the end, a known key gets the
  review appended to its list.
\<close>

type_synonym groups = "((string \<times> string) \<times> review list) list"

fun group_add :: "(string \<times> string) \<Rightarrow> review \<Rightarrow> groups \<Rightarrow> groups" where
  "group_add key r [] = [(key, [r])]"
| "group_add key r ((k, rs) # g) =
     (if k = key then (k, rs @ [r]) # g else (k, rs) # group_add key r g)"

fun group_reviews ::
  "(string \<Rightarrow> datetime option) \<Rightarrow> review list \<Rightarrow> groups \<Rightarrow> py_error + groups" where
  "group_reviews fromiso [] grouped = Inr grouped"
| "group_reviews fromiso (r # rs) grouped =
     (case key_of fromiso r of
        Inl e \<Rightarrow> Inl e
      | Inr key \<Rightarrow> group_reviews fromiso rs (group_add key r grouped))"

section \<open>\<^verbatim>\<open>save_reviews\<close>, step 2: merge, sort, write\<close>

definition partition_path :: "string \<Rightarrow> string \<Rightarrow> string \<Rightarrow> string" where
  "partition_path base_path c ym = base_path @ ''/'' @ c @ ''/'' @ ym @ ''.json''"

text \<open>
  \<^verbatim>\<open>self._read_json(path) or []\<close>, then iterated as a list of dicts: an index document
  there is a dict of strings, and \<^verbatim>\<open>r['id']\<close> on a string is a \<^verbatim>\<open>TypeError\<close>.
\<close>

definition load_existing :: "store \<Rightarrow> string \<Rightarrow> py_error + review list" where
  "load_existing s path =
     (case read_json s path of
        None \<Rightarrow> Inr []
      | Some (Reviews rs) \<Rightarrow> Inr rs
      | Some (Index i) \<Rightarrow> Inl TypeError)"

fun existing_ids :: "review list \<Rightarrow> py_error + string set" where
  "existing_ids [] = Inr {}"
| "existing_ids (r # rs) =
     (case rid r of
        None \<Rightarrow> Inl KeyError
      | Some i \<Rightarrow> (case existing_ids rs of Inl e \<Rightarrow> Inl e | Inr ids \<Rightarrow> Inr (insert i ids)))"

fun merge_new :: "string set \<Rightarrow> review list \<Rightarrow> review list \<Rightarrow> py_error + review list" where
  "merge_new ids merged [] = Inr merged"
| "merge_new ids merged (nr # ns) =
     (case rid nr of
        None \<Rightarrow> Inl KeyError
      | Some i \<Rightarrow>
          (if i \<notin> ids then merge_new (insert i ids) (merged @ [nr]) ns
           else merge_new ids merged ns))"

text \<open>
  \<^verbatim>\<open>merged.sort(key=lambda x: x['date'], reverse=True)\<close>. The keys are computed first
  (\<^verbatim>\<open>KeyError\<close> on a dict without date). A list of at most one element is compared with
  nothing. Otherwise the keys must be mutually comparable: all strings, all naive or all
  aware datetimes; any other mix is a \<^verbatim>\<open>TypeError\<close>. With \<^verbatim>\<open>reverse=True\<close> the list is
  reversed, sorted stably in ascending order and reversed again.
\<close>

definition sort_reverse :: "('a \<Rightarrow> 'k::linorder) \<Rightarrow> 'a list \<Rightarrow> 'a list" where
  "sort_reverse key xs = rev (sort_key key (rev xs))"

definition str_key :: "review \<Rightarrow> string" where
  "str_key r = (case date r of Some (DStr str) \<Rightarrow> str | _ \<Rightarrow> [])"

definition time_key :: "review \<Rightarrow> int" where
  "time_key r = (case date r of Some (DTime dt) \<Rightarrow> instant dt | _ \<Rightarrow> 0)"

definition is_str :: "review \<Rightarrow> bool" where
  "is_str r = (case date r of Some (DStr str) \<Rightarrow> True | _ \<Rightarrow> False)"

definition is_naive :: "review \<Rightarrow> bool" where
  "is_naive r = (case date r of Some (DTime dt) \<Rightarrow> tz dt = None | _ \<Rightarrow> False)"

definition is_aware :: "review \<Rightarrow> bool" where
  "is_aware r = (case date r of Some (DTime dt) \<Rightarrow> tz dt \<noteq> None | _ \<Rightarrow> False)"

definition sort_by_date_reverse :: "review list \<Rightarrow> py_error + review list" where
  "sort_by_date_reverse xs =
     (if \<not> list_all (\<lambda>r. date r \<noteq> None) xs then Inl KeyError
      else if length xs \<le> 1 then Inr xs
      else if list_all is_str xs then Inr (sort_reverse str_key xs)
      else if list_all is_naive xs \<or> list_all is_aware xs then Inr (sort_reverse time_key xs)
      else Inl TypeError)"

text \<open>The merge of one partition (lines 74 to 83): existing records, new records, result.\<close>

definition merge_partition :: "review list \<Rightarrow> review list \<Rightarrow> py_error + review list" where
  "merge_partition existing_reviews new_reviews =
     (case existing_ids existing_reviews of
        Inl e \<Rightarrow> Inl e
      | Inr ids \<Rightarrow>
          (case merge_new ids existing_reviews new_reviews of
             Inl e \<Rightarrow> Inl e
           | Inr merged \<Rightarrow> sort_by_date_reverse merged))"

record file_info =
  info_path :: string
  info_country :: string
  info_ym :: string
  info_reviews :: "review list"

text \<open>
  The loop over \<^verbatim>\<open>grouped.items()\<close>. An exception leaves the loop and the function: the
  store keeps what was written before it.
\<close>

fun process_groups ::
  "store \<Rightarrow> string \<Rightarrow> groups \<Rightarrow> file_info list \<Rightarrow> py_error option \<times> store \<times> file_info list" where
  "process_groups s base_path [] affected = (None, s, affected)"
| "process_groups s base_path (((c, ym), new_reviews) # gs) affected =
     (let path = partition_path base_path c ym in
      case load_existing s path of
        Inl e \<Rightarrow> (Some e, s, affected)
      | Inr existing_reviews \<Rightarrow>
          (case merge_partition existing_reviews new_reviews of
             Inl e \<Rightarrow> (Some e, s, affected)
           | Inr merged \<Rightarrow>
               process_groups (write_json s path (Reviews merged)) base_path gs
                 (affected @ [\<lparr>info_path = path, info_country = c, info_ym = ym,
                                info_reviews = merged\<rparr>])))"

section \<open>\<^verbatim>\<open>update_index\<close>\<close>

definition index_path :: "string \<Rightarrow> string" where
  "index_path base_path = base_path @ ''/index.json''"

definition version_of :: "review \<Rightarrow> string" where
  "version_of r =
     (case version r of None \<Rightarrow> ''Unknown'' | Some v \<Rightarrow> if v = [] then ''Unknown'' else v)"

text \<open>
  \<^verbatim>\<open>versions_in_file\<close> is a Python set; the model walks it in order of first occurrence
  (\<open>index_file_order\<close> below: the order does not matter).
\<close>

definition versions_in_file :: "review list \<Rightarrow> string list" where
  "versions_in_file rs = remdups (map version_of rs)"

definition add_ym ::
  "string \<Rightarrow> string \<Rightarrow> string \<Rightarrow> (string \<rightharpoonup> (string \<rightharpoonup> string list))
     \<Rightarrow> (string \<rightharpoonup> (string \<rightharpoonup> string list))" where
  "add_ym c ym v vs =
     (let by_country = (case vs v of None \<Rightarrow> Map.empty | Some m \<Rightarrow> m);
          yms = (case by_country c of None \<Rightarrow> [] | Some l \<Rightarrow> l)
      in vs(v \<mapsto> by_country(c \<mapsto> (if ym \<notin> set yms then sort (yms @ [ym]) else yms))))"

definition index_file ::
  "file_info \<Rightarrow> (string \<rightharpoonup> (string \<rightharpoonup> string list)) \<Rightarrow> (string \<rightharpoonup> (string \<rightharpoonup> string list))" where
  "index_file info vs =
     fold (add_ym (info_country info) (info_ym info)) (versions_in_file (info_reviews info)) vs"

text \<open>
  \<^verbatim>\<open>self._read_json(index_path) or {"versions": {}, "updated_at": ""}\<close>: an absent document
  and an empty list are falsy; a non-empty list has no item \<^verbatim>\<open>"versions"\<close> and cannot take
  one (\<^verbatim>\<open>TypeError\<close>).
\<close>

definition load_index :: "store \<Rightarrow> string \<Rightarrow> py_error + index_doc" where
  "load_index s path =
     (case read_json s path of
        None \<Rightarrow> Inr \<lparr>versions = Map.empty, updated_at = []\<rparr>
      | Some (Reviews []) \<Rightarrow> Inr \<lparr>versions = Map.empty, updated_at = []\<rparr>
      | Some (Reviews (r # rs)) \<Rightarrow> Inl TypeError
      | Some (Index i) \<Rightarrow> Inr i)"

text \<open>\<open>now\<close> is \<^verbatim>\<open>datetime.datetime.now().isoformat()\<close>, the clock read by this call.\<close>

definition update_index ::
  "string \<Rightarrow> store \<Rightarrow> file_info list \<Rightarrow> string \<Rightarrow> py_error option \<times> store" where
  "update_index now s updated_files_info base_path =
     (case load_index s (index_path base_path) of
        Inl e \<Rightarrow> (Some e, s)
      | Inr index_data \<Rightarrow>
          (None, write_json s (index_path base_path)
             (Index (index_data\<lparr>versions := fold index_file updated_files_info (versions index_data),
                                updated_at := now\<rparr>))))"

section \<open>\<^verbatim>\<open>save_reviews\<close>\<close>

definition save_reviews ::
  "(string \<Rightarrow> datetime option) \<Rightarrow> string \<Rightarrow> store \<Rightarrow> review list \<Rightarrow> string
     \<Rightarrow> py_error option \<times> store" where
  "save_reviews fromiso now s reviews base_path =
     (case group_reviews fromiso reviews [] of
        Inl e \<Rightarrow> (Some e, s)
      | Inr grouped \<Rightarrow>
          (case process_groups s base_path grouped [] of
             (Some e, s', affected_files) \<Rightarrow> (Some e, s')
           | (None, s', affected_files) \<Rightarrow> update_index now s' affected_files base_path))"

section \<open>Notions the properties are stated with\<close>

text \<open>Python's \<^verbatim>\<open>a['date'] < b['date']\<close>, and two dates neither of which is before the other.\<close>

definition lt_dates :: "review \<Rightarrow> review \<Rightarrow> bool option" where
  "lt_dates a b = (case (date a, date b) of (Some x, Some y) \<Rightarrow> date_lt x y | _ \<Rightarrow> None)"

definition same_date :: "review \<Rightarrow> review \<Rightarrow> bool" where
  "same_date a b = (lt_dates a b = Some False \<and> lt_dates b a = Some False)"

section \<open>Concrete inputs\<close>

text \<open>
  The part of \<^verbatim>\<open>datetime.fromisoformat\<close> that reads \<^verbatim>\<open>YYYY-MM-DD\<close> (midnight, naive) and
  rejects every other string: the parser of the concrete runs below.
\<close>

definition days_in_month :: "nat \<Rightarrow> nat \<Rightarrow> nat" where
  "days_in_month y m =
     (if m = 2 \<and> is_leap y then 29
      else [0, 31, 28, 31, 30, 31, 30, 31, 31, 30, 31, 30, 31] ! (min m 12))"

definition digits_val :: "string \<Rightarrow> nat option" where
  "digits_val cs =
     (if list_all (\<lambda>c. CHR ''0'' \<le> c \<and> c \<le> CHR ''9'') cs
      then Some (foldl (\<lambda>n c. 10 * n + (of_char c - 48)) 0 cs) else None)"

definition fromiso_date :: "string \<Rightarrow> datetime option" where
  "fromiso_date str =
     (if length str = 10 \<and> str ! 4 = CHR ''-'' \<and> str ! 7 = CHR ''-'' then
        (case (digits_val (take 4 str), digits_val (take 2 (drop 5 str)), digits_val (drop 8 str)) of
           (Some y, Some m, Some d) \<Rightarrow>
             (if 1 \<le> y \<and> 1 \<le> m \<and> m \<le> 12 \<and> 1 \<le> d \<and> d \<le> days_in_month y m
              then Some \<lparr>year = y, month = m, day = d, hour = 0, minute = 0, second = 0,
                         microsecond = 0, tz = None\<rparr>
              else None)
         | _ \<Rightarrow> None)
      else None)"

definition review_a :: review where
  "review_a = \<lparr>rid = Some ''a'', date = Some (DStr ''2024-05-01''), country = Some ''jp'',
     version = Some ''1.0'', other = [(''rating'', ''5'')]\<rparr>"

definition review_b :: review where
  "review_b = \<lparr>rid = Some ''b'', date = Some (DStr ''2024-06-15''), country = Some ''jp'',
     version = Some ''1.1'', other = []\<rparr>"

definition review_c :: review where
  "review_c = \<lparr>rid = Some ''c'', date = Some (DStr ''2024-05-01''), country = Some ''jp'',
     version = None, other = []\<rparr>"

definition review_a2 :: review where
  "review_a2 = \<lparr>rid = Some ''a'', date = Some (DStr ''2024-05-01''), country = Some ''jp'',
     version = Some ''2.0'', other = [(''rating'', ''1'')]\<rparr>"

text \<open>The triple (version, country, year-month) is present in a versions mapping, in the index.\<close>

definition in_versions ::
  "(string \<rightharpoonup> (string \<rightharpoonup> string list)) \<Rightarrow> string \<Rightarrow> string \<Rightarrow> string \<Rightarrow> bool" where
  "in_versions vs v c ym =
     (case vs v of None \<Rightarrow> False
      | Some m \<Rightarrow> (case m c of None \<Rightarrow> False | Some yms \<Rightarrow> ym \<in> set yms))"

definition index_has :: "store \<Rightarrow> string \<Rightarrow> string \<Rightarrow> string \<Rightarrow> string \<Rightarrow> bool" where
  "index_has s base_path v c ym =
     (case read_json s (index_path base_path) of
        Some (Index i) \<Rightarrow> in_versions (versions i) v c ym
      | _ \<Rightarrow> False)"
text \<open>A date with which \<^verbatim>\<open>save_reviews\<close> cannot form the year-month of a review.\<close>

definition bad_date :: "(string \<Rightarrow> datetime option) \<Rightarrow> review \<Rightarrow> bool" where
  "bad_date fromiso r =
     (case date r of
        None \<Rightarrow> True
      | Some DNone \<Rightarrow> True
      | Some (DStr str) \<Rightarrow> fromiso str = None
      | Some (DTime dt) \<Rightarrow> False)"

text \<open>What the loop body of \<^verbatim>\<open>save_reviews\<close> computes for one group in a given store.\<close>

definition merge_group ::
  "store \<Rightarrow> string \<Rightarrow> (string \<times> string) \<times> review list \<Rightarrow> py_error + review list" where
  "merge_group s base_path g =
     (case load_existing s (partition_path base_path (fst (fst g)) (snd (fst g))) of
        Inl e \<Rightarrow> Inl e
      | Inr existing_reviews \<Rightarrow> merge_partition existing_reviews (snd g))"

text \<open>
  The store after the first run of the specification's scenario A (\<open>review_a\<close> into
  the empty store at time \<open>t1\<close>), and records fetched later.
\<close>

definition index_a :: index_doc where
  "index_a = \<lparr>versions = [''1.0'' \<mapsto> [''jp'' \<mapsto> [''2024/05'']]], updated_at = ''t1''\<rparr>"

definition store_a :: store where
  "store_a = [''reviews/jp/2024/05.json'' \<mapsto> Reviews [review_a],
              ''reviews/index.json'' \<mapsto> Index index_a]"

definition review_d :: review where
  "review_d = \<lparr>rid = Some ''d'',
     date = Some (DTime \<lparr>year = 2024, month = 5, day = 2, hour = 9, minute = 0, second = 0,
                          microsecond = 0, tz = Some 0\<rparr>),
     country = Some ''jp'', version = Some ''1.2'', other = []\<rparr>"

definition review_u :: review where
  "review_u = \<lparr>rid = Some ''u'',
     date = Some (DTime \<lparr>year = 2024, month = 5, day = 3, hour = 9, minute = 0, second = 0,
                          microsecond = 0, tz = Some 0\<rparr>),
     country = Some ''us'', version = Some ''3.0'', other = []\<rparr>"

definition review_bad :: review where
  "review_bad = \<lparr>rid = Some ''x'', date = Some (DStr ''yesterday''), country = Some ''jp'',
     version = Some ''1.0'', other = []\<rparr>"

definition info_a2 :: file_info where
  "info_a2 = \<lparr>info_path = ''reviews/jp/2024/05.json'', info_country = ''jp'',
     info_ym = ''2024/05'', info_reviews = [review_a2]\<rparr>"

text \<open>
  What the grouping loop maintains: the keys of \<^verbatim>\<open>grouped\<close> are distinct, their
  year-month is one that \<^verbatim>\<open>strftime\<close> writes, and every review stands under its own key.
\<close>

definition groups_ok :: "(string \<Rightarrow> datetime option) \<Rightarrow> groups \<Rightarrow> bool" where
  "groups_ok fromiso g \<longleftrightarrow>
     distinct (map fst g)
       \<and> (\<forall>(k, rs)\<in>set g. is_ym (snd k) \<and> (\<forall>r\<in>set rs. key_of fromiso r = Inr k))"
text \<open>The path and the \<^verbatim>\<open>affected_files\<close> entry of a group.\<close>

definition group_path :: "string \<Rightarrow> (string \<times> string) \<times> review list \<Rightarrow> string" where
  "group_path base_path g = partition_path base_path (fst (fst g)) (snd (fst g))"

definition group_info ::
  "string \<Rightarrow> (string \<times> string) \<times> review list \<Rightarrow> review list \<Rightarrow> file_info" where
  "group_info base_path g merged =
     \<lparr>info_path = group_path base_path g, info_country = fst (fst g), info_ym = snd (fst g),
      info_reviews = merged\<rparr>"

text \<open>
  Every record of a partition of \<open>s\<close> is still in that partition in \<open>s'\<close>, up to the
  string form of its date.
\<close>

definition store_le :: "store \<Rightarrow> store \<Rightarrow> bool" where
  "store_le s s' \<longleftrightarrow>
     (\<forall>p rs r. s p = Some (Reviews rs) \<longrightarrow> r \<in> set rs \<longrightarrow>
        (\<exists>rs' r'. s' p = Some (Reviews rs') \<and> r' \<in> set rs' \<and> json_review r' = json_review r))"

text \<open>
  A review written at 23:30 on 31 May 2024 in a zone seven hours behind UTC, and the same
  moment read in UTC (06:30 on 1 June).
\<close>

definition dt_w :: datetime where
  "dt_w = \<lparr>year = 2024, month = 5, day = 31, hour = 23, minute = 30, second = 0,
            microsecond = 0, tz = Some (- 420)\<rparr>"

definition dt_w_utc :: datetime where
  "dt_w_utc = \<lparr>year = 2024, month = 6, day = 1, hour = 6, minute = 30, second = 0,
                microsecond = 0, tz = Some 0\<rparr>"

definition review_w :: review where
  "review_w = \<lparr>rid = Some ''w'', date = Some (DTime dt_w), country = Some ''jp'',
     version = Some ''1.0'', other = []\<rparr>"

text \<open>
  The partition (country, year-month) holds a record of the given version and country.
  A record's version is read as the index reads it (\<open>version_of\<close>).
\<close>

definition partition_has :: "store \<Rightarrow> string \<Rightarrow> string \<Rightarrow> string \<Rightarrow> string \<Rightarrow> bool" where
  "partition_has s base_path v c ym =
     (case read_json s (partition_path base_path c ym) of
        Some (Reviews rs) \<Rightarrow> list_ex (\<lambda>r. version_of r = v \<and> country r = Some c) rs
      | _ \<Rightarrow> False)"

text \<open>
  A sequence of ingestion runs on one base path, each with its clock reading and its
  batch; a run that raises leaves the store it had reached.
\<close>

fun ingest_runs ::
  "(string \<Rightarrow> datetime option) \<Rightarrow> string \<Rightarrow> store \<Rightarrow> (string \<times> review list) list \<Rightarrow> store" where
  "ingest_runs fromiso base_path s [] = s"
| "ingest_runs fromiso base_path s ((now, reviews) # runs) =
     ingest_runs fromiso base_path (snd (save_reviews fromiso now s reviews base_path)) runs"

text \<open>The invariant of the store, and of the \<^verbatim>\<open>affected_files\<close> list during a run.\<close>

definition countries_ok :: "string \<Rightarrow> store \<Rightarrow> bool" where
  "countries_ok base_path s \<longleftrightarrow>
     (\<forall>c ym rs r. is_ym ym \<longrightarrow> s (partition_path base_path c ym) = Some (Reviews rs) \<longrightarrow>
        r \<in> set rs \<longrightarrow> country r = Some c)"

definition index_sound :: "string \<Rightarrow> store \<Rightarrow> bool" where
  "index_sound base_path s \<longleftrightarrow>
     (\<forall>v c ym. index_has s base_path v c ym \<longrightarrow>
        is_ym ym \<and> partition_has s base_path v c ym)"

definition infos_ok :: "string \<Rightarrow> store \<Rightarrow> file_info list \<Rightarrow> bool" where
  "infos_ok base_path s aff \<longleftrightarrow>
     (\<forall>info\<in>set aff. is_ym (info_ym info)
        \<and> (\<forall>r\<in>set (info_reviews info).
              partition_has s base_path (version_of r) (info_country info) (info_ym info)))"

text \<open>
  The dates of a batch keep their order when they are written: whenever Python can
  compare the dates of two records, it compares their stored string forms the same way.
\<close>

definition order_kept :: "review list \<Rightarrow> bool" where
  "order_kept reviews \<longleftrightarrow>
     (\<forall>a\<in>set reviews. \<forall>b\<in>set reviews.
        lt_dates a b \<noteq> None \<longrightarrow> lt_dates (json_review a) (json_review b) = lt_dates a b)"

definition json_info :: "file_info \<Rightarrow> file_info" where
  "json_info info = info\<lparr>info_reviews := map json_review (info_reviews info)\<rparr>"

text \<open>A review of 23:45 UTC on 31 May 2024: earlier than \<open>review_w\<close>, later as a string.\<close>

definition review_v :: review where
  "review_v = \<lparr>rid = Some ''v'',
     date = Some (DTime \<lparr>year = 2024, month = 5, day = 31, hour = 23, minute = 45, second = 0,
                          microsecond = 0, tz = Some 0\<rparr>),
     country = Some ''jp'', version = Some ''1.1'', other = []\<rparr>"

text \<open>A second review of 2 May 2024 as the fetchers deliver it, with microseconds.\<close>

definition review_e :: review where
  "review_e = \<lparr>rid = Some ''e'',
     date = Some (DTime \<lparr>year = 2024, month = 5, day = 2, hour = 10, minute = 30, second = 0,
                          microsecond = 500000, tz = Some 0\<rparr>),
     country = Some ''jp'', version = None, other = []\<rparr>"

text \<open>
  The partition (country, year-month) of a store holds a record with the given id; it
  holds the given record.
\<close>

definition id_stored :: "store \<Rightarrow> string \<Rightarrow> string \<Rightarrow> string \<Rightarrow> string \<Rightarrow> bool" where
  "id_stored s base_path c ym i =
     (case read_json s (partition_path base_path c ym) of
        Some (Reviews rs) \<Rightarrow> list_ex (\<lambda>r. rid r = Some i) rs
      | _ \<Rightarrow> False)"

definition record_stored :: "store \<Rightarrow> string \<Rightarrow> string \<Rightarrow> string \<Rightarrow> review \<Rightarrow> bool" where
  "record_stored s base_path c ym r =
     (case read_json s (partition_path base_path c ym) of
        Some (Reviews rs) \<Rightarrow> r \<in> set rs
      | _ \<Rightarrow> False)"

text \<open>The moment of \<open>review_v\<close>, and the store after \<open>review_v\<close> and \<open>review_w\<close> went in at \<open>t1\<close>.\<close>

definition dt_v :: datetime where
  "dt_v = \<lparr>year = 2024, month = 5, day = 31, hour = 23, minute = 45, second = 0,
            microsecond = 0, tz = Some 0\<rparr>"

definition store_vw :: store where
  "store_vw = [''reviews/jp/2024/05.json'' \<mapsto>
       Reviews [review_w\<lparr>date := Some (DStr ''2024-05-31 23:30:00-07:00'')\<rparr>,
                review_v\<lparr>date := Some (DStr ''2024-05-31 23:45:00+00:00'')\<rparr>],
     ''reviews/index.json'' \<mapsto>
       Index \<lparr>versions = [''1.0'' \<mapsto> [''jp'' \<mapsto> [''2024/05'']],
                           ''1.1'' \<mapsto> [''jp'' \<mapsto> [''2024/05'']]],
              updated_at = ''t1''\<rparr>]"

section \<open>The sort\<close>

lemma sort_reverse_sorted:
  "sorted_wrt (\<lambda>a b. key b \<le> key a) (sort_reverse key xs)"
  unfolding sort_reverse_def sorted_wrt_rev
  using sorted_sort_key [of key "rev xs"] by (simp add: sorted_map)

lemma sort_reverse_stable:
  "filter (\<lambda>y. key y = k) (sort_reverse key xs) = filter (\<lambda>y. key y = k) xs"
  unfolding sort_reverse_def rev_filter [symmetric] sort_key_stable by (simp add: rev_filter)

lemma sort_reverse_mset: "mset (sort_reverse key xs) = mset xs"
  by (simp add: sort_reverse_def)

lemma sort_reverse_set: "set (sort_reverse key xs) = set xs"
  by (simp add: sort_reverse_def)

lemma sort_reverse_id:
  assumes "sorted_wrt (\<lambda>a b. key b \<le> key a) xs"
  shows "sort_reverse key xs = xs"
proof -
  from assms have "sorted (map key (rev xs))"
    by (simp add: sorted_map sorted_wrt_rev)
  then show ?thesis
    by (simp add: sort_reverse_def sort_key_id_if_sorted)
qed

lemmas date_class_defs = is_str_def is_naive_def is_aware_def str_key_def time_key_def

lemma lt_dates_str: "is_str a \<Longrightarrow> is_str b \<Longrightarrow> lt_dates a b = Some (str_key a < str_key b)"
  by (auto simp: lt_dates_def date_class_defs split: option.splits date_val.splits)

lemma lt_dates_naive:
  "is_naive a \<Longrightarrow> is_naive b \<Longrightarrow> lt_dates a b = Some (time_key a < time_key b)"
  by (auto simp: lt_dates_def date_class_defs split: option.splits date_val.splits)

lemma lt_dates_aware:
  "is_aware a \<Longrightarrow> is_aware b \<Longrightarrow> lt_dates a b = Some (time_key a < time_key b)"
  by (auto simp: lt_dates_def date_class_defs split: option.splits date_val.splits)

lemma same_date_str: "is_str a \<Longrightarrow> same_date x a = (is_str x \<and> str_key a = str_key x)"
  by (auto simp: same_date_def lt_dates_def date_class_defs split: option.splits date_val.splits)

lemma same_date_naive: "is_naive a \<Longrightarrow> same_date x a = (is_naive x \<and> time_key a = time_key x)"
  by (auto simp: same_date_def lt_dates_def date_class_defs split: option.splits date_val.splits)

lemma same_date_aware: "is_aware a \<Longrightarrow> same_date x a = (is_aware x \<and> time_key a = time_key x)"
  by (auto simp: same_date_def lt_dates_def date_class_defs split: option.splits date_val.splits)

lemma sorted_by_key_lt_dates:
  assumes "\<And>a b. a \<in> set xs \<Longrightarrow> b \<in> set xs \<Longrightarrow> lt_dates a b = Some (key a < key b)"
  shows "sorted_wrt (\<lambda>a b. lt_dates a b = Some False) (sort_reverse key xs)"
proof (rule sorted_wrt_mono_rel [OF _ sort_reverse_sorted [of key xs]])
  fix a b
  assume "a \<in> set (sort_reverse key xs)" "b \<in> set (sort_reverse key xs)" "key b \<le> key a"
  then show "lt_dates a b = Some False"
    using assms [of a b] by (simp add: sort_reverse_set not_less)
qed

lemma stable_by_key:
  assumes "\<And>a. a \<in> set xs \<Longrightarrow> same_date x a = (c \<and> key a = key x)"
  shows "filter (same_date x) (sort_reverse key xs) = filter (same_date x) xs"
proof -
  have "filter (same_date x) ys = filter (\<lambda>a. c \<and> key a = key x) ys" if "set ys = set xs" for ys
    using that assms by (auto intro!: filter_cong)
  then have "filter (same_date x) (sort_reverse key xs)
      = filter (\<lambda>a. c \<and> key a = key x) (sort_reverse key xs)"
    and "filter (same_date x) xs = filter (\<lambda>a. c \<and> key a = key x) xs"
    by (simp_all add: sort_reverse_set)
  moreover have "filter (\<lambda>a. c \<and> key a = key x) (sort_reverse key xs)
      = filter (\<lambda>a. c \<and> key a = key x) xs"
    by (cases c) (simp_all add: sort_reverse_stable)
  ultimately show ?thesis by simp
qed

lemma sort_by_date_reverse_cases:
  assumes "sort_by_date_reverse xs = Inr ys"
  shows "(length xs \<le> 1 \<and> ys = xs)
     \<or> (list_all is_str xs \<and> ys = sort_reverse str_key xs)
     \<or> (list_all is_naive xs \<and> ys = sort_reverse time_key xs)
     \<or> (list_all is_aware xs \<and> ys = sort_reverse time_key xs)"
proof (cases "length xs \<le> 1")
  case True
  with assms show ?thesis
    by (simp add: sort_by_date_reverse_def split: if_split_asm)
next
  case False
  with assms show ?thesis
    by (auto simp add: sort_by_date_reverse_def split: if_split_asm)
qed

lemma sort_by_date_reverse_sorted:
  assumes "sort_by_date_reverse xs = Inr ys"
  shows "sorted_wrt (\<lambda>a b. lt_dates a b = Some False) ys"
proof -
  consider "length xs \<le> 1" "ys = xs"
    | "list_all is_str xs" "ys = sort_reverse str_key xs"
    | "list_all is_naive xs" "ys = sort_reverse time_key xs"
    | "list_all is_aware xs" "ys = sort_reverse time_key xs"
    using sort_by_date_reverse_cases [OF assms] by blast
  then show ?thesis
  proof cases
    case 1
    then show ?thesis by (cases xs) auto
  next
    case 2
    then show ?thesis
      by (auto intro!: sorted_by_key_lt_dates lt_dates_str simp: list_all_iff)
  next
    case 3
    then show ?thesis
      by (auto intro!: sorted_by_key_lt_dates lt_dates_naive simp: list_all_iff)
  next
    case 4
    then show ?thesis
      by (auto intro!: sorted_by_key_lt_dates lt_dates_aware simp: list_all_iff)
  qed
qed

lemma sort_by_date_reverse_stable:
  assumes "sort_by_date_reverse xs = Inr ys"
  shows "filter (same_date x) ys = filter (same_date x) xs"
proof -
  consider "ys = xs"
    | "list_all is_str xs" "ys = sort_reverse str_key xs"
    | "list_all is_naive xs" "ys = sort_reverse time_key xs"
    | "list_all is_aware xs" "ys = sort_reverse time_key xs"
    using sort_by_date_reverse_cases [OF assms] by blast
  then show ?thesis
  proof cases
    case 1
    then show ?thesis by simp
  next
    case 2
    then show ?thesis
      using stable_by_key [of xs x "is_str x" str_key] same_date_str
      by (simp add: list_all_iff)
  next
    case 3
    then show ?thesis
      using stable_by_key [of xs x "is_naive x" time_key] same_date_naive
      by (simp add: list_all_iff)
  next
    case 4
    then show ?thesis
      using stable_by_key [of xs x "is_aware x" time_key] same_date_aware
      by (simp add: list_all_iff)
  qed
qed

lemma sort_by_date_reverse_mset: "sort_by_date_reverse xs = Inr ys \<Longrightarrow> mset ys = mset xs"
  using sort_by_date_reverse_cases [of xs ys] by (auto simp: sort_reverse_mset)

lemma merge_partition_Inr:
  assumes "merge_partition existing new = Inr merged"
  obtains ids m where "existing_ids existing = Inr ids" "merge_new ids existing new = Inr m"
    "sort_by_date_reverse m = Inr merged"
  using assms by (auto simp: merge_partition_def split: sum.splits)

text \<open>
  What the sort does guarantee. Whenever the merge returns, the list handed to the write
  is in non-increasing order under Python's own comparison of the \<^verbatim>\<open>'date'\<close> values as they
  are at that moment (strings by code point, datetimes by the moment they denote), the
  sort is stable for that comparison, and it only permutes the records.
\<close>

lemma merge_partition_sorted_stable:
  assumes "merge_partition existing new = Inr merged"
  shows "sorted_wrt (\<lambda>a b. lt_dates a b = Some False) merged
     \<and> (\<exists>ids m. existing_ids existing = Inr ids \<and> merge_new ids existing new = Inr m
          \<and> mset merged = mset m
          \<and> (\<forall>x. filter (same_date x) merged = filter (same_date x) m))"
proof -
  from assms obtain ids m where *: "existing_ids existing = Inr ids"
    "merge_new ids existing new = Inr m" "sort_by_date_reverse m = Inr merged"
    by (rule merge_partition_Inr)
  from *(3) have "sorted_wrt (\<lambda>a b. lt_dates a b = Some False) merged"
    by (rule sort_by_date_reverse_sorted)
  moreover from *(3) have "mset merged = mset m"
    by (rule sort_by_date_reverse_mset)
  moreover from *(3) have "\<forall>x. filter (same_date x) merged = filter (same_date x) m"
    by (simp add: sort_by_date_reverse_stable)
  ultimately show ?thesis using *(1,2) by blast
qed

lemma merge_partition_sorted_stable_example:
  "merge_partition [review_a] [review_b, review_c] = Inr [review_b, review_a, review_c]
   \<and> sorted_wrt (\<lambda>a b. lt_dates a b = Some False) [review_b, review_a, review_c]
   \<and> filter (same_date review_a) [review_b, review_a, review_c] = [review_a, review_c]"
proof -
  have h: "merge_partition [review_a] [review_b, review_c] = Inr [review_b, review_a, review_c]"
    by (simp add: merge_partition_def sort_by_date_reverse_def sort_reverse_def
        review_a_def review_b_def review_c_def is_str_def str_key_def)
  have f: "filter (same_date review_a) [review_b, review_a, review_c] = [review_a, review_c]"
    by (simp add: same_date_def lt_dates_def review_a_def review_b_def review_c_def)
  from merge_partition_sorted_stable [OF h] h f show ?thesis by blast
qed

section \<open>The merge\<close>

lemma existing_ids_Inr:
  "existing_ids rs = Inr ids \<Longrightarrow>
     ids = {i. \<exists>r\<in>set rs. rid r = Some i} \<and> (\<forall>r\<in>set rs. rid r \<noteq> None)"
  by (induction rs arbitrary: ids) (auto split: option.splits sum.splits)

lemma merge_new_Inr:
  "merge_new ids merged new = Inr m \<Longrightarrow>
     \<exists>added. m = merged @ added
       \<and> (\<forall>r\<in>set added. r \<in> set new \<and> (\<exists>i. rid r = Some i \<and> i \<notin> ids))"
proof (induction new arbitrary: ids merged)
  case Nil
  then show ?case by simp
next
  case (Cons nr ns)
  then obtain i where i: "rid nr = Some i"
    by (auto split: option.splits)
  show ?case
  proof (cases "i \<in> ids")
    case True
    with Cons.prems i have "merge_new ids merged ns = Inr m" by simp
    from Cons.IH [OF this] show ?thesis by auto
  next
    case False
    with Cons.prems i have "merge_new (insert i ids) (merged @ [nr]) ns = Inr m" by simp
    from Cons.IH [OF this] obtain added where
      "m = (merged @ [nr]) @ added"
      "\<forall>r\<in>set added. r \<in> set ns \<and> (\<exists>j. rid r = Some j \<and> j \<notin> insert i ids)"
      by blast
    with i False show ?thesis
      by (intro exI [of _ "nr # added"]) auto
  qed
qed

text \<open>
  C2. When the partition holds a record \<open>e\<close> with id \<open>X\<close> and the batch brings a record
  \<open>n\<close> with the same id and other field values (\<open>n\<close> is no record of the partition), the
  merge result contains \<open>e\<close> as it was, does not contain \<open>n\<close>, and every record with id \<open>X\<close>
  in the result is a record of the partition: no field is refreshed from \<open>n\<close>.
\<close>

theorem merge_keeps_existing:
  assumes "merge_partition existing new = Inr merged"
    and "e \<in> set existing" and "rid e = Some X"
    and "n \<in> set new" and "rid n = Some X" and "n \<notin> set existing"
  shows "e \<in> set merged \<and> n \<notin> set merged
     \<and> (\<forall>r\<in>set merged. rid r = Some X \<longrightarrow> r \<in> set existing)"
proof -
  from assms(1) obtain ids m where *: "existing_ids existing = Inr ids"
    "merge_new ids existing new = Inr m" "sort_by_date_reverse m = Inr merged"
    by (rule merge_partition_Inr)
  from *(1) assms(2,3) have X: "X \<in> ids"
    by (auto dest: existing_ids_Inr)
  from merge_new_Inr [OF *(2)] obtain added where added: "m = existing @ added"
    "\<forall>r\<in>set added. r \<in> set new \<and> (\<exists>i. rid r = Some i \<and> i \<notin> ids)"
    by blast
  have "set merged = set m"
    using sort_by_date_reverse_mset [OF *(3)] by (rule mset_eq_setD)
  with added X assms show ?thesis by auto
qed

theorem merge_keeps_existing_witness:
  "merge_partition [review_a] [review_a2] = Inr [review_a] \<and> review_a2 \<noteq> review_a
   \<and> review_a \<in> set [review_a] \<and> review_a2 \<notin> set [review_a]"
proof -
  have h: "merge_partition [review_a] [review_a2] = Inr [review_a]"
    by (simp add: merge_partition_def sort_by_date_reverse_def review_a_def review_a2_def)
  have d: "review_a2 \<notin> set [review_a]"
    by (simp add: review_a_def review_a2_def)
  have "rid review_a = Some ''a''" "rid review_a2 = Some ''a''"
    by (simp_all add: review_a_def review_a2_def)
  from merge_keeps_existing [OF h _ this(1) _ this(2) d] h d show ?thesis by auto
qed

section \<open>The index update\<close>

lemma in_versions_add_ym:
  "in_versions (add_ym c ym v vs) v' c' ym' \<longleftrightarrow>
     in_versions vs v' c' ym' \<or> (v' = v \<and> c' = c \<and> ym' = ym)"
  by (auto simp: in_versions_def add_ym_def Let_def split: option.splits)

lemma in_versions_fold_add_ym:
  "in_versions (fold (add_ym c ym) vl vs) v' c' ym' \<longleftrightarrow>
     in_versions vs v' c' ym' \<or> (v' \<in> set vl \<and> c' = c \<and> ym' = ym)"
  by (induction vl arbitrary: vs) (auto simp: in_versions_add_ym)

lemma in_versions_index_file:
  "in_versions (index_file info vs) v c ym \<longleftrightarrow>
     in_versions vs v c ym
       \<or> (v \<in> version_of ` set (info_reviews info) \<and> c = info_country info \<and> ym = info_ym info)"
  by (simp add: index_file_def in_versions_fold_add_ym versions_in_file_def)

lemma in_versions_fold_index_file:
  "in_versions (fold index_file infos vs) v c ym \<longleftrightarrow>
     in_versions vs v c ym
       \<or> (\<exists>info\<in>set infos. v \<in> version_of ` set (info_reviews info)
             \<and> c = info_country info \<and> ym = info_ym info)"
  by (induction infos arbitrary: vs) (auto simp: in_versions_index_file)

lemma update_index_None:
  assumes "update_index now s infos base_path = (None, s')"
  obtains idx where "load_index s (index_path base_path) = Inr idx"
    "s' = s(index_path base_path \<mapsto>
       Index (idx\<lparr>versions := fold index_file infos (versions idx), updated_at := now\<rparr>))"
  using assms by (auto simp: update_index_def write_json_def split: sum.splits)

lemma update_index_Some:
  "update_index now s infos base_path = (Some e, s') \<Longrightarrow> s' = s"
  by (auto simp: update_index_def split: sum.splits)

lemma index_has_load:
  "index_has s base_path v c ym \<Longrightarrow>
     \<exists>idx. load_index s (index_path base_path) = Inr idx \<and> in_versions (versions idx) v c ym"
  by (auto simp: index_has_def load_index_def split: option.splits doc.splits)

text \<open>
  C9. An index update never removes a mapping: a triple (version, country, year-month)
  that is in the index document before \<^verbatim>\<open>update_index\<close> is in it afterwards, whatever the
  touched partitions hold now.
\<close>

theorem update_index_keeps_mappings:
  assumes "update_index now s infos base_path = (e, s')"
    and "index_has s base_path v c ym"
  shows "index_has s' base_path v c ym"
proof (cases e)
  case None
  with assms(1) obtain idx where idx: "load_index s (index_path base_path) = Inr idx"
    "s' = s(index_path base_path \<mapsto>
       Index (idx\<lparr>versions := fold index_file infos (versions idx), updated_at := now\<rparr>))"
    by (auto elim: update_index_None)
  from index_has_load [OF assms(2)] idx(1) have "in_versions (versions idx) v c ym"
    by simp
  with idx(2) show ?thesis
    by (simp add: index_has_def read_json_def in_versions_fold_index_file)
next
  case (Some err)
  with assms(1) have "s' = s"
    by (simp add: update_index_Some)
  with assms(2) show ?thesis by simp
qed
theorem update_index_keeps_mappings_witness:
  "index_has store_a ''reviews'' ''1.0'' ''jp'' ''2024/05''
   \<and> index_has (snd (update_index ''t2'' store_a [info_a2] ''reviews'')) ''reviews''
        ''1.0'' ''jp'' ''2024/05''
   \<and> ''1.0'' \<notin> version_of ` set (info_reviews info_a2)"
proof -
  have h: "index_has store_a ''reviews'' ''1.0'' ''jp'' ''2024/05''"
    by (simp add: index_has_def read_json_def index_path_def store_a_def index_a_def
        in_versions_def)
  have v: "''1.0'' \<notin> version_of ` set (info_reviews info_a2)"
    by (simp add: info_a2_def review_a2_def version_of_def)
  from update_index_keeps_mappings [OF prod.collapse [symmetric] h] h v show ?thesis
    by blast
qed

section \<open>Runs of \<^verbatim>\<open>save_reviews\<close>: exceptions and what they leave behind\<close>

lemma save_reviews_None:
  assumes "save_reviews fromiso now s reviews base_path = (None, s')"
  obtains grouped s1 aff where "group_reviews fromiso reviews [] = Inr grouped"
    "process_groups s base_path grouped [] = (None, s1, aff)"
    "update_index now s1 aff base_path = (None, s')"
  using assms by (auto simp: save_reviews_def split: sum.splits prod.splits option.splits)

lemma group_reviews_bad:
  "r \<in> set reviews \<Longrightarrow> key_of fromiso r = Inl e' \<Longrightarrow>
     \<exists>e. group_reviews fromiso reviews grouped = Inl e"
  by (induction reviews arbitrary: grouped) (auto split: sum.splits)

lemma bad_date_key_of: "bad_date fromiso r \<Longrightarrow> \<exists>e. key_of fromiso r = Inl e"
  by (auto simp: bad_date_def key_of_def ym_of_def split: option.splits date_val.splits)

lemma process_groups_append:
  "process_groups s base_path (xs @ ys) aff =
     (case process_groups s base_path xs aff of
        (None, s1, aff1) \<Rightarrow> process_groups s1 base_path ys aff1
      | (Some e, s1, aff1) \<Rightarrow> (Some e, s1, aff1))"
proof (induction xs arbitrary: s aff)
  case Nil
  then show ?case by simp
next
  case (Cons g xs)
  obtain c ym new where g: "g = ((c, ym), new)"
    by (metis surj_pair)
  show ?case
    unfolding g by (simp add: Cons.IH Let_def split: sum.splits)
qed

lemma process_groups_fail_here:
  "merge_group s base_path g = Inl e \<Longrightarrow> process_groups s base_path (g # post) aff = (Some e, s, aff)"
  by (cases g) (auto simp: merge_group_def Let_def split: sum.splits)

section \<open>Paths and what a run leaves untouched\<close>

lemma index_path_neq_partition_path: "index_path base_path \<noteq> partition_path base_path c ym"
proof
  assume "index_path base_path = partition_path base_path c ym"
  then have "''index.json'' = c @ ''/'' @ ym @ ''.json''"
    by (simp add: index_path_def partition_path_def)
  then have "CHR ''/'' \<in> set ''index.json''"
    by (metis in_set_conv_decomp append_Cons)
  then show False by simp
qed

lemma first_split_unique:
  "x \<notin> set xs \<Longrightarrow> x \<notin> set xs' \<Longrightarrow> xs @ x # ys = xs' @ x # ys' \<Longrightarrow> xs = xs' \<and> ys = ys'"
proof (induction xs arbitrary: xs')
  case Nil
  then show ?case by (cases xs') auto
next
  case (Cons a xs)
  then show ?case by (cases xs') auto
qed

lemma is_ym_split:
  assumes "is_ym ym"
  obtains y m where "ym = y @ CHR ''/'' # m" "CHR ''/'' \<notin> set y" "CHR ''/'' \<notin> set m"
proof -
  from assms have "filter (\<lambda>c. c = CHR ''/'') ym \<noteq> []"
    by (auto simp: is_ym_def)
  then have "CHR ''/'' \<in> set ym"
    by (auto simp: filter_empty_conv)
  from split_list_first [OF this] obtain y m where
    ym: "ym = y @ CHR ''/'' # m" "CHR ''/'' \<notin> set y" by blast
  from ym(2) have "filter (\<lambda>c. c = CHR ''/'') y = []"
    by (auto simp: filter_empty_conv)
  with assms ym(1) have "filter (\<lambda>c. c = CHR ''/'') m = []"
    by (simp add: is_ym_def)
  then have "CHR ''/'' \<notin> set m"
    by (auto simp: filter_empty_conv)
  with ym show ?thesis by (rule that)
qed

lemma partition_path_inj:
  assumes "partition_path base_path c ym = partition_path base_path c' ym'"
    and "is_ym ym" and "is_ym ym'"
  shows "c = c' \<and> ym = ym'"
proof -
  from assms(2) obtain y m where ym: "ym = y @ CHR ''/'' # m"
    "CHR ''/'' \<notin> set y" "CHR ''/'' \<notin> set m" by (rule is_ym_split)
  from assms(3) obtain y' m' where ym': "ym' = y' @ CHR ''/'' # m'"
    "CHR ''/'' \<notin> set y'" "CHR ''/'' \<notin> set m'" by (rule is_ym_split)
  from assms(1) have "c @ CHR ''/'' # ym = c' @ CHR ''/'' # ym'"
    by (simp add: partition_path_def)
  then have "rev (c @ CHR ''/'' # ym) = rev (c' @ CHR ''/'' # ym')"
    by simp
  then have e: "rev m @ CHR ''/'' # (rev y @ CHR ''/'' # rev c)
      = rev m' @ CHR ''/'' # (rev y' @ CHR ''/'' # rev c')"
    by (simp add: ym(1) ym'(1))
  have nm: "CHR ''/'' \<notin> set (rev m)" "CHR ''/'' \<notin> set (rev m')"
    using ym(3) ym'(3) by simp_all
  have ny: "CHR ''/'' \<notin> set (rev y)" "CHR ''/'' \<notin> set (rev y')"
    using ym(2) ym'(2) by simp_all
  from first_split_unique [OF nm e] have 1: "rev m = rev m'"
    and 2: "rev y @ CHR ''/'' # rev c = rev y' @ CHR ''/'' # rev c'"
    by blast+
  from first_split_unique [OF ny 2] have "rev y = rev y'" "rev c = rev c'"
    by blast+
  with 1 ym(1) ym'(1) show ?thesis by simp
qed

lemma digit_no_slash: "digit n \<noteq> CHR ''/''"
proof -
  have "digit n \<in> set ''0123456789''"
    unfolding digit_def by (rule nth_mem) simp
  then show ?thesis by auto
qed

lemma dec_no_slash: "CHR ''/'' \<notin> set (dec n)"
proof (induction n rule: dec.induct)
  case (1 n)
  then show ?case
    using digit_no_slash [of n] by (subst dec.simps) (auto simp: eq_commute)
qed

lemma is_ym_strftime_ym: "is_ym (strftime_ym d)"
proof -
  have "filter (\<lambda>c. c = CHR ''/'') (dec (year d)) = []"
    "filter (\<lambda>c. c = CHR ''/'') (pad2 (month d)) = []"
    using dec_no_slash digit_no_slash by (auto simp: filter_empty_conv pad2_def)
  then show ?thesis
    by (simp add: is_ym_def strftime_ym_def)
qed

lemma process_groups_frame:
  "process_groups s base_path gs aff = (e, s', aff') \<Longrightarrow>
     \<forall>g\<in>set gs. p \<noteq> partition_path base_path (fst (fst g)) (snd (fst g)) \<Longrightarrow> s' p = s p"
proof (induction gs arbitrary: s aff)
  case Nil
  then show ?case by simp
next
  case (Cons g gs)
  obtain c ym new where g: "g = ((c, ym), new)"
    by (metis surj_pair)
  show ?case
  proof (cases "merge_group s base_path g")
    case (Inl err)
    from process_groups_fail_here [OF this] Cons.prems(1) show ?thesis by simp
  next
    case (Inr merged)
    with Cons.prems(1) have
      "process_groups (write_json s (partition_path base_path c ym) (Reviews merged)) base_path gs
         (aff @ [\<lparr>info_path = partition_path base_path c ym, info_country = c, info_ym = ym,
                   info_reviews = merged\<rparr>]) = (e, s', aff')"
      by (auto simp: g merge_group_def Let_def split: sum.splits)
    from Cons.IH [OF this] Cons.prems(2)
    have "s' p = write_json s (partition_path base_path c ym) (Reviews merged) p"
      by simp
    with Cons.prems(2) show ?thesis
      by (simp add: g write_json_def)
  qed
qed

lemma process_groups_index_frame:
  "process_groups s base_path gs aff = (e, s', aff') \<Longrightarrow> s' (index_path base_path) = s (index_path base_path)"
  using process_groups_frame [of s base_path gs aff e s' aff' "index_path base_path"]
  by (simp add: index_path_neq_partition_path)

lemmas run_defs = save_reviews_def key_of_def ym_of_def strftime_ym_def dec.simps pad4_def pad2_def
  digit_def partition_path_def load_existing_def read_json_def write_json_def merge_partition_def
  sort_by_date_reverse_def sort_reverse_def date_class_defs json_review_def
  update_index_def load_index_def index_path_def index_file_def versions_in_file_def
  version_of_def add_ym_def fromiso_date_def digits_val_def days_in_month_def is_leap_def

text \<open>Scenario A of the specification: \<open>review_a\<close> into the empty store gives \<open>store_a\<close>.\<close>

lemma scenario_a:
  "save_reviews fromiso_date ''t1'' Map.empty [review_a] ''reviews'' = (None, store_a)"
  by (simp add: run_defs store_a_def index_a_def review_a_def Let_def)

text \<open>
  C7 (as the code has it). A record whose date is missing (no \<^verbatim>\<open>'date'\<close> key, or the value
  \<^verbatim>\<open>None\<close>) or is a string that \<^verbatim>\<open>fromisoformat\<close> rejects is not dropped on its own:
  \<^verbatim>\<open>save_reviews\<close> raises while it groups the batch, before it reads or writes any document.
  The store is left as it was, so neither that record nor any other record of the batch is
  stored by the call, and no default date is given to it.
\<close>

theorem save_reviews_bad_date:
  assumes "r \<in> set reviews" and "bad_date fromiso r"
  shows "\<exists>e. save_reviews fromiso now s reviews base_path = (Some e, s)"
proof -
  from bad_date_key_of [OF assms(2)] obtain e' where "key_of fromiso r = Inl e'" ..
  from group_reviews_bad [OF assms(1) this] obtain e where
    "group_reviews fromiso reviews [] = Inl e" ..
  then show ?thesis
    by (simp add: save_reviews_def)
qed

theorem save_reviews_bad_date_witness:
  "bad_date fromiso_date review_bad
   \<and> (\<exists>e. save_reviews fromiso_date ''t2'' store_a [review_a, review_bad] ''reviews'' = (Some e, store_a))"
proof -
  have b: "bad_date fromiso_date review_bad"
    by (simp add: bad_date_def review_bad_def fromiso_date_def)
  from save_reviews_bad_date [OF _ b, of "[review_a, review_bad]"] b show ?thesis
    by simp
qed

text \<open>
  C7 as stated fails: the batch does not continue. With an unparsable date in the batch,
  the well-formed \<open>review_a\<close> of the same batch is not stored either.
\<close>

theorem save_reviews_bad_date_counterexample:
  "bad_date fromiso_date review_bad
   \<and> save_reviews fromiso_date ''t1'' Map.empty [review_bad, review_a] ''reviews''
       = (Some ValueError, Map.empty)"
  by (simp add: bad_date_def review_bad_def fromiso_date_def save_reviews_def key_of_def ym_of_def)

text \<open>
  C6 (as the code has it). \<^verbatim>\<open>save_reviews\<close> has no handler: when the merge of one group
  raises (reading the partition, merging or sorting), the call raises that exception at
  once. The store is the one left by the groups before it, the groups after it are not
  processed, and the index document is not touched.
\<close>

theorem save_reviews_failure_stops:
  assumes "group_reviews fromiso reviews [] = Inr (pre @ g # post)"
    and "process_groups s base_path pre [] = (None, s1, aff)"
    and "merge_group s1 base_path g = Inl e"
  shows "save_reviews fromiso now s reviews base_path = (Some e, s1)
     \<and> s1 (index_path base_path) = s (index_path base_path)"
proof -
  have "process_groups s base_path (pre @ g # post) [] = (Some e, s1, aff)"
    by (simp add: process_groups_append assms(2) process_groups_fail_here [OF assms(3)])
  with assms(1) have "save_reviews fromiso now s reviews base_path = (Some e, s1)"
    by (simp add: save_reviews_def)
  with process_groups_index_frame [OF assms(2)] show ?thesis by simp
qed

theorem save_reviews_failure_stops_witness:
  "group_reviews fromiso_date [review_u, review_d] []
     = Inr ([((''us'', ''2024/05''), [review_u])] @ ((''jp'', ''2024/05''), [review_d]) # [])
   \<and> save_reviews fromiso_date ''t2'' store_a [review_u, review_d] ''reviews''
       = (Some TypeError, store_a(''reviews/us/2024/05.json'' \<mapsto> Reviews [json_review review_u]))"
proof -
  let ?s1 = "store_a(''reviews/us/2024/05.json'' \<mapsto> Reviews [json_review review_u])"
  let ?aff = "[\<lparr>info_path = ''reviews/us/2024/05.json'', info_country = ''us'',
                 info_ym = ''2024/05'', info_reviews = [review_u]\<rparr>]"
  have g: "group_reviews fromiso_date [review_u, review_d] []
     = Inr ([((''us'', ''2024/05''), [review_u])] @ ((''jp'', ''2024/05''), [review_d]) # [])"
    by (simp add: run_defs review_u_def review_d_def)
  have p: "process_groups store_a ''reviews'' [((''us'', ''2024/05''), [review_u])] []
     = (None, ?s1, ?aff)"
    by (simp add: run_defs store_a_def review_u_def Let_def)
  have m: "merge_group ?s1 ''reviews'' ((''jp'', ''2024/05''), [review_d]) = Inl TypeError"
    by (simp add: merge_group_def run_defs store_a_def review_a_def review_d_def)
  from save_reviews_failure_stops [OF g p m] g show ?thesis by simp
qed

text \<open>
  C6 as stated fails. The store holds \<open>review_a\<close> (its date a string, as every stored date
  is); the batch brings a new review for the same partition (its date a datetime) and one
  for another country. The sort of the first partition raises \<^verbatim>\<open>TypeError\<close>; the other
  group is not processed and the index is not updated.
\<close>

theorem save_reviews_failure_stops_counterexample:
  "save_reviews fromiso_date ''t2'' store_a [review_d, review_u] ''reviews''
     = (Some TypeError, store_a)
   \<and> store_a ''reviews/us/2024/05.json'' = None
   \<and> store_a ''reviews/index.json'' = Some (Index index_a)
   \<and> updated_at index_a = ''t1''"
  by (simp add: run_defs store_a_def index_a_def review_a_def review_d_def review_u_def)

text \<open>
  C10 (as the code has it). With an empty batch \<^verbatim>\<open>save_reviews\<close> writes no partition document
  and rewrites the index document with \<^verbatim>\<open>updated_at\<close> restamped and the versions mapping as
  it was. More generally every run that returns without an exception ends with the index
  document rewritten and restamped.
\<close>

theorem save_reviews_restamps_index:
  "(load_index s (index_path base_path) = Inr idx \<longrightarrow>
      save_reviews fromiso now s [] base_path
        = (None, s(index_path base_path \<mapsto> Index (idx\<lparr>updated_at := now\<rparr>))))
   \<and> (save_reviews fromiso now s reviews base_path = (None, s') \<longrightarrow>
        (\<exists>idx'. s' (index_path base_path) = Some (Index idx') \<and> updated_at idx' = now))"
proof (intro conjI impI)
  assume "load_index s (index_path base_path) = Inr idx"
  then show "save_reviews fromiso now s [] base_path
      = (None, s(index_path base_path \<mapsto> Index (idx\<lparr>updated_at := now\<rparr>)))"
    by (simp add: save_reviews_def update_index_def write_json_def)
next
  assume "save_reviews fromiso now s reviews base_path = (None, s')"
  then obtain s1 aff where "update_index now s1 aff base_path = (None, s')"
    by (rule save_reviews_None)
  then show "\<exists>idx'. s' (index_path base_path) = Some (Index idx') \<and> updated_at idx' = now"
    by (auto elim!: update_index_None)
qed

theorem save_reviews_restamps_index_witness:
  "load_index store_a (index_path ''reviews'') = Inr index_a
   \<and> save_reviews fromiso_date ''t2'' store_a [] ''reviews''
       = (None, store_a(index_path ''reviews'' \<mapsto> Index (index_a\<lparr>updated_at := ''t2''\<rparr>)))
   \<and> fst (save_reviews fromiso_date ''t2'' store_a [review_a] ''reviews'') = None
   \<and> (\<exists>idx'. snd (save_reviews fromiso_date ''t2'' store_a [review_a] ''reviews'')
                 (index_path ''reviews'') = Some (Index idx') \<and> updated_at idx' = ''t2'')"
proof -
  have l: "load_index store_a (index_path ''reviews'') = Inr index_a"
    by (simp add: load_index_def read_json_def index_path_def store_a_def)
  have f: "fst (save_reviews fromiso_date ''t2'' store_a [review_a] ''reviews'') = None"
    by (simp add: run_defs store_a_def index_a_def review_a_def Let_def)
  then have r: "save_reviews fromiso_date ''t2'' store_a [review_a] ''reviews''
      = (None, snd (save_reviews fromiso_date ''t2'' store_a [review_a] ''reviews''))"
    by (metis prod.collapse)
  from save_reviews_restamps_index [of store_a "''reviews''" index_a fromiso_date "''t2''"
      "[review_a]" "snd (save_reviews fromiso_date ''t2'' store_a [review_a] ''reviews'')"]
    l f r show ?thesis by blast
qed

text \<open>
  C10 as stated fails for a run that raises: the run at \<open>t2\<close> below stops in the sort and
  leaves the index document with the stamp \<open>t1\<close>.
\<close>

theorem save_reviews_restamps_index_counterexample:
  "save_reviews fromiso_date ''t2'' store_a [review_d] ''reviews'' = (Some TypeError, store_a)
   \<and> store_a (index_path ''reviews'') = Some (Index index_a)
   \<and> updated_at index_a \<noteq> ''t2''"
  by (simp add: run_defs store_a_def index_a_def review_a_def review_d_def)

section \<open>The grouping\<close>

lemma group_add_keys:
  "map fst (group_add k r g) = (if k \<in> fst ` set g then map fst g else map fst g @ [k])"
  by (induction k r g rule: group_add.induct) (auto split: if_splits)

lemma group_add_set:
  "(k', rs') \<in> set (group_add k r g) \<Longrightarrow>
     (k', rs') \<in> set g \<or> (k' = k \<and> (\<exists>rs. rs' = rs @ [r] \<and> (rs = [] \<or> (k, rs) \<in> set g)))"
  by (induction k r g rule: group_add.induct) (auto split: if_splits)

lemma group_add_mem:
  "\<exists>rs. (k, rs) \<in> set (group_add k r g) \<and> r \<in> set rs"
proof (induction k r g rule: group_add.induct)
  case (1 key r)
  then show ?case by simp
next
  case (2 key r k rs g)
  show ?case
  proof (cases "k = key")
    case True
    then show ?thesis by (intro exI [of _ "rs @ [r]"]) simp
  next
    case False
    with 2 obtain rs' where "(key, rs') \<in> set (group_add key r g)" "r \<in> set rs'" by blast
    with False show ?thesis by (intro exI [of _ rs']) simp
  qed
qed

lemma group_add_keeps:
  "(k', rs') \<in> set g \<Longrightarrow> r' \<in> set rs' \<Longrightarrow>
     \<exists>rs. (k', rs) \<in> set (group_add k r g) \<and> r' \<in> set rs"
proof (induction k r g rule: group_add.induct)
  case (1 key r)
  then show ?case by simp
next
  case (2 key r k rs g)
  show ?case
  proof (cases "(k', rs') = (k, rs)")
    case True
    with 2(3) show ?thesis
      by (cases "k = key") (auto intro: exI [of _ "rs @ [r]"] exI [of _ rs])
  next
    case False
    with 2(2) have "(k', rs') \<in> set g" by auto
    show ?thesis
    proof (cases "k = key")
      case True
      with \<open>(k', rs') \<in> set g\<close> 2(3) show ?thesis by (intro exI [of _ rs']) simp
    next
      case False
      from 2(1) [OF this \<open>(k', rs') \<in> set g\<close> 2(3)] obtain rs'' where
        "(k', rs'') \<in> set (group_add key r g)" "r' \<in> set rs''" by blast
      with False show ?thesis by (intro exI [of _ rs'']) simp
    qed
  qed
qed
lemma key_of_ym_length:
  "key_of fromiso r = Inr (c, ym) \<Longrightarrow> is_ym ym \<and> country r = Some c"
  by (auto simp: key_of_def ym_of_def is_ym_strftime_ym
      split: option.splits sum.splits date_val.splits)

lemma groups_ok_add:
  assumes "groups_ok fromiso g" and "key_of fromiso r = Inr k"
  shows "groups_ok fromiso (group_add k r g)"
proof -
  have "distinct (map fst (group_add k r g))"
    using assms(1) by (auto simp: groups_ok_def group_add_keys)
  moreover have "is_ym (snd k') \<and> (\<forall>r'\<in>set rs'. key_of fromiso r' = Inr k')"
    if "(k', rs') \<in> set (group_add k r g)" for k' rs'
  proof -
    from key_of_ym_length [of fromiso r "fst k" "snd k"] assms(2) have "is_ym (snd k)"
      by simp
    with group_add_set [OF that] assms show ?thesis
      by (fastforce simp: groups_ok_def)
  qed
  ultimately show ?thesis
    unfolding groups_ok_def by blast
qed

lemma group_reviews_ok:
  "group_reviews fromiso reviews g = Inr grouped \<Longrightarrow> groups_ok fromiso g \<Longrightarrow>
     groups_ok fromiso grouped"
  by (induction reviews arbitrary: g) (auto split: sum.splits intro: groups_ok_add)

lemma group_reviews_keeps:
  "group_reviews fromiso reviews g = Inr grouped \<Longrightarrow> (k', rs') \<in> set g \<Longrightarrow> r' \<in> set rs' \<Longrightarrow>
     \<exists>rs. (k', rs) \<in> set grouped \<and> r' \<in> set rs"
proof (induction reviews arbitrary: g rs')
  case Nil
  then show ?case by auto
next
  case (Cons r reviews)
  from Cons.prems(1) obtain k where k: "key_of fromiso r = Inr k"
    "group_reviews fromiso reviews (group_add k r g) = Inr grouped"
    by (auto split: sum.splits)
  from group_add_keeps [OF Cons.prems(2,3)] obtain rs where
    "(k', rs) \<in> set (group_add k r g)" "r' \<in> set rs" by blast
  from Cons.IH [OF k(2) this] show ?case .
qed

lemma group_reviews_mem:
  "group_reviews fromiso reviews g = Inr grouped \<Longrightarrow> r \<in> set reviews \<Longrightarrow>
     \<exists>k rs. key_of fromiso r = Inr k \<and> (k, rs) \<in> set grouped \<and> r \<in> set rs"
proof (induction reviews arbitrary: g)
  case Nil
  then show ?case by simp
next
  case (Cons a reviews)
  from Cons.prems(1) obtain k where k: "key_of fromiso a = Inr k"
    "group_reviews fromiso reviews (group_add k a g) = Inr grouped"
    by (auto split: sum.splits)
  show ?case
  proof (cases "r = a")
    case True
    from group_add_mem obtain rs where "(k, rs) \<in> set (group_add k a g)" "a \<in> set rs"
      by blast
    from group_reviews_keeps [OF k(2) this] True k(1) show ?thesis by blast
  next
    case False
    with Cons.prems(2) have "r \<in> set reviews" by simp
    from Cons.IH [OF k(2) this] show ?thesis .
  qed
qed

lemma group_reviews_from:
  "group_reviews fromiso reviews g = Inr grouped \<Longrightarrow> (k, rs) \<in> set grouped \<Longrightarrow> r \<in> set rs \<Longrightarrow>
     r \<in> set reviews \<or> (\<exists>rs'. (k, rs') \<in> set g \<and> r \<in> set rs')"
proof (induction reviews arbitrary: g)
  case Nil
  then show ?case by auto
next
  case (Cons a reviews)
  from Cons.prems(1) obtain k' where k: "key_of fromiso a = Inr k'"
    "group_reviews fromiso reviews (group_add k' a g) = Inr grouped"
    by (auto split: sum.splits)
  from Cons.IH [OF k(2) Cons.prems(2,3)] show ?case
  proof
    assume "r \<in> set reviews"
    then show ?thesis by simp
  next
    assume "\<exists>rs'. (k, rs') \<in> set (group_add k' a g) \<and> r \<in> set rs'"
    then obtain rs' where "(k, rs') \<in> set (group_add k' a g)" "r \<in> set rs'" by blast
    with group_add_set [OF this(1)] show ?thesis by auto
  qed
qed

lemma process_groups_Cons:
  "process_groups s base_path (g # gs) aff =
     (case merge_group s base_path g of
        Inl e \<Rightarrow> (Some e, s, aff)
      | Inr merged \<Rightarrow>
          process_groups (write_json s (group_path base_path g) (Reviews merged)) base_path gs
            (aff @ [group_info base_path g merged]))"
  by (cases g) (auto simp: merge_group_def group_path_def group_info_def Let_def split: sum.splits)

lemma json_date_idem [simp]: "json_date (json_date d) = json_date d"
  by (cases d) simp_all

lemma json_review_idem [simp]: "json_review (json_review r) = json_review r"
  by (cases "date r") (simp_all add: json_review_def)

lemma json_review_fields [simp]:
  "rid (json_review r) = rid r" "country (json_review r) = country r"
  "version (json_review r) = version r" "other (json_review r) = other r"
  by (simp_all add: json_review_def)

lemma version_of_json [simp]: "version_of (json_review r) = version_of r"
  by (simp add: version_of_def)

lemma json_review_eq_fields:
  "json_review r' = json_review r \<Longrightarrow>
     rid r' = rid r \<and> country r' = country r \<and> version_of r' = version_of r"
  by (metis json_review_fields(1,2) version_of_json)

lemma store_le_refl: "store_le s s"
  by (auto simp: store_le_def)

lemma store_le_trans: "store_le s s' \<Longrightarrow> store_le s' s'' \<Longrightarrow> store_le s s''"
  unfolding store_le_def by (metis (no_types, lifting))

lemma merge_new_ids:
  "merge_new ids merged new = Inr m \<Longrightarrow> n \<in> set new \<Longrightarrow>
     \<exists>i. rid n = Some i \<and> (i \<in> ids \<or> (\<exists>r\<in>set m. rid r = Some i))"
proof (induction new arbitrary: ids merged)
  case Nil
  then show ?case by simp
next
  case (Cons nr ns)
  then obtain i where i: "rid nr = Some i"
    by (auto split: option.splits)
  show ?case
  proof (cases "i \<in> ids")
    case True
    with Cons.prems i have m: "merge_new ids merged ns = Inr m" by simp
    show ?thesis
    proof (cases "n = nr")
      case True
      with i \<open>i \<in> ids\<close> show ?thesis by simp
    next
      case False
      with Cons.prems(2) have "n \<in> set ns" by simp
      from Cons.IH [OF m this] show ?thesis .
    qed
  next
    case False
    with Cons.prems i have m: "merge_new (insert i ids) (merged @ [nr]) ns = Inr m" by simp
    from merge_new_Inr [OF m] have nr: "nr \<in> set m" by auto
    show ?thesis
    proof (cases "n = nr")
      case True
      with i nr show ?thesis by auto
    next
      case False
      with Cons.prems(2) have "n \<in> set ns" by simp
      from Cons.IH [OF m this] i nr show ?thesis by auto
    qed
  qed
qed

lemma merge_partition_sets:
  assumes "merge_partition existing new = Inr merged"
  shows "set existing \<subseteq> set merged" and "set merged \<subseteq> set existing \<union> set new"
    and "\<forall>n\<in>set new. \<exists>i. rid n = Some i \<and> (\<exists>r\<in>set merged. rid r = Some i)"
proof -
  from assms obtain ids m where *: "existing_ids existing = Inr ids"
    "merge_new ids existing new = Inr m" "sort_by_date_reverse m = Inr merged"
    by (rule merge_partition_Inr)
  have eq: "set merged = set m"
    using sort_by_date_reverse_mset [OF *(3)] by (rule mset_eq_setD)
  from merge_new_Inr [OF *(2)] obtain added where added: "m = existing @ added"
    "\<forall>r\<in>set added. r \<in> set new \<and> (\<exists>i. rid r = Some i \<and> i \<notin> ids)"
    by blast
  from eq added show "set existing \<subseteq> set merged" "set merged \<subseteq> set existing \<union> set new"
    by auto
  show "\<forall>n\<in>set new. \<exists>i. rid n = Some i \<and> (\<exists>r\<in>set merged. rid r = Some i)"
  proof
    fix n assume "n \<in> set new"
    from merge_new_ids [OF *(2) this] obtain i where
      i: "rid n = Some i" "i \<in> ids \<or> (\<exists>r\<in>set m. rid r = Some i)" by blast
    from existing_ids_Inr [OF *(1)] have "i \<in> ids \<Longrightarrow> \<exists>r\<in>set existing. rid r = Some i"
      by auto
    with i added(1) eq show "\<exists>i. rid n = Some i \<and> (\<exists>r\<in>set merged. rid r = Some i)"
      by auto
  qed
qed

lemma merge_group_Inr:
  assumes "merge_group s base_path g = Inr merged"
  obtains existing where "load_existing s (group_path base_path g) = Inr existing"
    "merge_partition existing (snd g) = Inr merged"
  using assms by (auto simp: merge_group_def group_path_def split: sum.splits)

lemma load_existing_Inr:
  "load_existing s p = Inr existing \<Longrightarrow>
     (s p = None \<and> existing = []) \<or> s p = Some (Reviews existing)"
  by (auto simp: load_existing_def read_json_def split: option.splits doc.splits)

lemma write_group_grows:
  assumes "merge_group s base_path g = Inr merged"
  shows "store_le s (write_json s (group_path base_path g) (Reviews merged))"
proof -
  from assms obtain existing where e: "load_existing s (group_path base_path g) = Inr existing"
    "merge_partition existing (snd g) = Inr merged"
    by (rule merge_group_Inr)
  have "\<exists>rs' r'. write_json s (group_path base_path g) (Reviews merged) p = Some (Reviews rs')
      \<and> r' \<in> set rs' \<and> json_review r' = json_review r"
    if "s p = Some (Reviews rs)" "r \<in> set rs" for p rs r
  proof (cases "p = group_path base_path g")
    case True
    with that load_existing_Inr [OF e(1)] have "r \<in> set existing" by auto
    with merge_partition_sets(1) [OF e(2)] have "json_review r \<in> set (map json_review merged)"
      by auto
    with True show ?thesis
      by (auto simp: write_json_def intro!: exI [of _ "json_review r"])
  next
    case False
    with that show ?thesis
      by (auto simp: write_json_def)
  qed
  then show ?thesis
    unfolding store_le_def by blast
qed

lemma process_groups_grows:
  "process_groups s base_path gs aff = (e, s', aff') \<Longrightarrow> store_le s s'"
proof (induction gs arbitrary: s aff)
  case Nil
  then show ?case by (simp add: store_le_refl)
next
  case (Cons g gs)
  show ?case
  proof (cases "merge_group s base_path g")
    case (Inl err)
    with Cons.prems show ?thesis
      by (simp add: process_groups_Cons store_le_refl)
  next
    case (Inr merged)
    with Cons.prems have "process_groups (write_json s (group_path base_path g) (Reviews merged))
        base_path gs (aff @ [group_info base_path g merged]) = (e, s', aff')"
      by (simp add: process_groups_Cons)
    from Cons.IH [OF this] write_group_grows [OF Inr] show ?thesis
      by (rule store_le_trans [rotated])
  qed
qed

section \<open>The index after a run\<close>

lemma process_groups_affected_mono:
  "process_groups s base_path gs aff = (e, s', aff') \<Longrightarrow> set aff \<subseteq> set aff'"
proof (induction gs arbitrary: s aff)
  case Nil
  then show ?case by simp
next
  case (Cons g gs)
  show ?case
  proof (cases "merge_group s base_path g")
    case (Inl err)
    with Cons.prems show ?thesis
      by (simp add: process_groups_Cons)
  next
    case (Inr merged)
    with Cons.prems have "process_groups (write_json s (group_path base_path g) (Reviews merged))
        base_path gs (aff @ [group_info base_path g merged]) = (e, s', aff')"
      by (simp add: process_groups_Cons)
    from Cons.IH [OF this] show ?thesis by simp
  qed
qed

lemma process_groups_frame':
  "process_groups s base_path gs aff = (e, s', aff') \<Longrightarrow> p \<notin> group_path base_path ` set gs \<Longrightarrow>
     s' p = s p"
  using process_groups_frame [of s base_path gs aff e s' aff' p]
  by (auto simp: group_path_def)

lemma process_groups_written:
  "process_groups s base_path gs aff = (None, s', aff') \<Longrightarrow>
   distinct (map (group_path base_path) gs) \<Longrightarrow> g \<in> set gs \<Longrightarrow>
     \<exists>merged. s' (group_path base_path g) = Some (Reviews (map json_review merged))
       \<and> group_info base_path g merged \<in> set aff'"
proof (induction gs arbitrary: s aff)
  case Nil
  then show ?case by simp
next
  case (Cons g' gs)
  from Cons.prems(1) obtain merged where merged: "merge_group s base_path g' = Inr merged"
    and rest: "process_groups (write_json s (group_path base_path g') (Reviews merged))
        base_path gs (aff @ [group_info base_path g' merged]) = (None, s', aff')"
    by (auto simp: process_groups_Cons split: sum.splits)
  show ?case
  proof (cases "g = g'")
    case True
    from Cons.prems(2) have "group_path base_path g' \<notin> group_path base_path ` set gs"
      by simp
    from process_groups_frame' [OF rest this]
    have "s' (group_path base_path g') = Some (Reviews (map json_review merged))"
      by (simp add: write_json_def)
    moreover from process_groups_affected_mono [OF rest]
    have "group_info base_path g' merged \<in> set aff'" by auto
    ultimately show ?thesis using True by blast
  next
    case False
    with Cons.prems have "g \<in> set gs" "distinct (map (group_path base_path) gs)" by simp_all
    from Cons.IH [OF rest this(2,1)] show ?thesis .
  qed
qed

lemma groups_ok_distinct_paths:
  assumes "groups_ok fromiso gs"
  shows "distinct (map (group_path base_path) gs)"
proof -
  from assms have d: "distinct (map fst gs)" and
    l: "\<And>g. g \<in> set gs \<Longrightarrow> is_ym (snd (fst g))"
    by (auto simp: groups_ok_def)
  have "inj_on (group_path base_path) (set gs)"
  proof (rule inj_onI)
    fix g1 g2
    assume g: "g1 \<in> set gs" "g2 \<in> set gs" "group_path base_path g1 = group_path base_path g2"
    from g(3) l [OF g(1)] l [OF g(2)] have "fst g1 = fst g2"
      using partition_path_inj [of base_path "fst (fst g1)" "snd (fst g1)"
          "fst (fst g2)" "snd (fst g2)"]
      by (simp add: group_path_def prod_eq_iff)
    with d g(1,2) show "g1 = g2"
      by (meson distinct_map inj_onD)
  qed
  moreover from d have "distinct gs"
    by (simp add: distinct_map)
  ultimately show ?thesis
    by (simp add: distinct_map)
qed

lemma groups_ok_Nil: "groups_ok fromiso []"
  by (simp add: groups_ok_def)

text \<open>
  C5 (as the code has it). After an ingestion run that returns, every version present
  in the final record set of a partition touched by the run (a missing or empty version
  counting as \<^verbatim>\<open>"Unknown"\<close>) is in the index under the country and year-month of that
  partition.
\<close>

theorem save_reviews_index_complete:
  assumes "save_reviews fromiso now s reviews base_path = (None, s')"
    and "n \<in> set reviews" and "key_of fromiso n = Inr (c, ym)"
    and "s' (partition_path base_path c ym) = Some (Reviews rs)" and "r \<in> set rs"
  shows "index_has s' base_path (version_of r) c ym"
proof -
  from assms(1) obtain grouped s1 aff where run:
    "group_reviews fromiso reviews [] = Inr grouped"
    "process_groups s base_path grouped [] = (None, s1, aff)"
    "update_index now s1 aff base_path = (None, s')"
    by (rule save_reviews_None)
  from group_reviews_mem [OF run(1) assms(2)] assms(3) obtain new where
    g: "((c, ym), new) \<in> set grouped" by auto
  from group_reviews_ok [OF run(1) groups_ok_Nil]
  have "distinct (map (group_path base_path) grouped)"
    by (rule groups_ok_distinct_paths)
  from process_groups_written [OF run(2) this g] obtain merged where
    w: "s1 (partition_path base_path c ym) = Some (Reviews (map json_review merged))"
    "group_info base_path ((c, ym), new) merged \<in> set aff"
    by (auto simp: group_path_def)
  from run(3) obtain idx where idx: "s' = s1(index_path base_path \<mapsto>
       Index (idx\<lparr>versions := fold index_file aff (versions idx), updated_at := now\<rparr>))"
    by (rule update_index_None)
  with w(1) assms(4) index_path_neq_partition_path [of base_path c ym]
  have "rs = map json_review merged" by auto
  with assms(5) have "version_of r \<in> version_of ` set merged" by auto
  with w(2) have "in_versions (fold index_file aff (versions idx)) (version_of r) c ym"
    unfolding in_versions_fold_index_file
    by (intro disjI2 bexI [of _ "group_info base_path ((c, ym), new) merged"])
      (simp_all add: group_info_def)
  with idx show ?thesis
    by (simp add: index_has_def read_json_def)
qed

theorem save_reviews_index_complete_witness:
  "save_reviews fromiso_date ''t1'' Map.empty [review_a] ''reviews'' = (None, store_a)
   \<and> key_of fromiso_date review_a = Inr (''jp'', ''2024/05'')
   \<and> store_a (partition_path ''reviews'' ''jp'' ''2024/05'') = Some (Reviews [review_a])
   \<and> index_has store_a ''reviews'' (version_of review_a) ''jp'' ''2024/05''"
proof -
  have k: "key_of fromiso_date review_a = Inr (''jp'', ''2024/05'')"
    by (simp add: run_defs review_a_def)
  have p: "store_a (partition_path ''reviews'' ''jp'' ''2024/05'') = Some (Reviews [review_a])"
    by (simp add: partition_path_def store_a_def)
  from save_reviews_index_complete [OF scenario_a _ k p, of review_a] k p scenario_a
  show ?thesis by simp
qed

text \<open>
  C5 as stated fails after a run that raises. The run below writes the partition of
  \<open>review_u\<close>, then stops in the sort of the next partition: version \<^verbatim>\<open>3.0\<close> is in a
  partition the run has written and not in the index.
\<close>

theorem save_reviews_index_complete_counterexample:
  "fst (save_reviews fromiso_date ''t2'' store_a [review_u, review_d] ''reviews'') = Some TypeError
   \<and> snd (save_reviews fromiso_date ''t2'' store_a [review_u, review_d] ''reviews'')
       (partition_path ''reviews'' ''us'' ''2024/05'') = Some (Reviews [json_review review_u])
   \<and> version_of (json_review review_u) = ''3.0''
   \<and> \<not> index_has (snd (save_reviews fromiso_date ''t2'' store_a [review_u, review_d] ''reviews''))
         ''reviews'' ''3.0'' ''us'' ''2024/05''"
  by (simp add: run_defs store_a_def index_a_def review_a_def review_d_def review_u_def
      index_has_def in_versions_def Let_def)

section \<open>Soundness of the index in every reachable store\<close>

lemma partition_has_iff:
  "partition_has s base_path v c ym \<longleftrightarrow>
     (\<exists>rs r. s (partition_path base_path c ym) = Some (Reviews rs) \<and> r \<in> set rs
        \<and> version_of r = v \<and> country r = Some c)"
  by (auto simp: partition_has_def read_json_def list_ex_iff split: option.splits doc.splits)

lemma partition_has_mono:
  assumes "store_le s s'" and "partition_has s base_path v c ym"
  shows "partition_has s' base_path v c ym"
proof -
  from assms(2) obtain rs r where r: "s (partition_path base_path c ym) = Some (Reviews rs)"
    "r \<in> set rs" "version_of r = v" "country r = Some c"
    unfolding partition_has_iff by blast
  from assms(1) r(1,2) obtain rs' r' where
    "s' (partition_path base_path c ym) = Some (Reviews rs')" "r' \<in> set rs'"
    "json_review r' = json_review r"
    unfolding store_le_def by blast
  with r(3,4) json_review_eq_fields [of r' r] show ?thesis
    unfolding partition_has_iff by auto
qed

lemma index_has_cong:
  "s' (index_path base_path) = s (index_path base_path) \<Longrightarrow>
     index_has s' base_path v c ym = index_has s base_path v c ym"
  by (simp add: index_has_def read_json_def)

lemma merge_group_countries:
  assumes "countries_ok base_path s" and "merge_group s base_path g = Inr merged"
    and "is_ym (snd (fst g))" and "\<forall>r\<in>set (snd g). country r = Some (fst (fst g))"
  shows "\<forall>r\<in>set merged. country r = Some (fst (fst g))"
proof
  fix r assume r: "r \<in> set merged"
  from assms(2) obtain existing where e: "load_existing s (group_path base_path g) = Inr existing"
    "merge_partition existing (snd g) = Inr merged"
    by (rule merge_group_Inr)
  from merge_partition_sets(2) [OF e(2)] r consider "r \<in> set existing" | "r \<in> set (snd g)"
    by blast
  then show "country r = Some (fst (fst g))"
  proof cases
    case 1
    with load_existing_Inr [OF e(1)]
    have "s (partition_path base_path (fst (fst g)) (snd (fst g))) = Some (Reviews existing)"
      by (auto simp: group_path_def)
    with assms(1,3) 1 show ?thesis
      unfolding countries_ok_def by blast
  next
    case 2
    with assms(4) show ?thesis by blast
  qed
qed

lemma write_group_countries:
  assumes "countries_ok base_path s" and "merge_group s base_path g = Inr merged"
    and "is_ym (snd (fst g))" and "\<forall>r\<in>set (snd g). country r = Some (fst (fst g))"
  shows "countries_ok base_path (write_json s (group_path base_path g) (Reviews merged))"
  unfolding countries_ok_def
proof (intro allI impI)
  fix c ym rs r
  assume *: "is_ym ym"
    "write_json s (group_path base_path g) (Reviews merged) (partition_path base_path c ym)
       = Some (Reviews rs)" "r \<in> set rs"
  show "country r = Some c"
  proof (cases "partition_path base_path c ym = group_path base_path g")
    case True
    with assms(3) *(1) have c: "c = fst (fst g)"
      using partition_path_inj [of base_path c ym "fst (fst g)" "snd (fst g)"]
      by (simp add: group_path_def)
    from True *(2) have "rs = map json_review merged"
      by (simp add: write_json_def)
    with *(3) obtain r0 where "r0 \<in> set merged" "r = json_review r0" by auto
    with merge_group_countries [OF assms] c show ?thesis by simp
  next
    case False
    with *(2) have "s (partition_path base_path c ym) = Some (Reviews rs)"
      by (simp add: write_json_def)
    with assms(1) *(1,3) show ?thesis
      unfolding countries_ok_def by blast
  qed
qed

lemma write_group_index_sound:
  assumes "index_sound base_path s" and "merge_group s base_path g = Inr merged"
  shows "index_sound base_path (write_json s (group_path base_path g) (Reviews merged))"
  unfolding index_sound_def
proof (intro allI impI)
  fix v c ym
  let ?s1 = "write_json s (group_path base_path g) (Reviews merged)"
  assume "index_has ?s1 base_path v c ym"
  moreover have "?s1 (index_path base_path) = s (index_path base_path)"
    using index_path_neq_partition_path [of base_path "fst (fst g)" "snd (fst g)"]
    by (simp add: write_json_def group_path_def)
  ultimately have "index_has s base_path v c ym"
    using index_has_cong [of ?s1 base_path s v c ym] by simp
  with assms(1) have "is_ym ym" "partition_has s base_path v c ym"
    by (simp_all add: index_sound_def)
  with partition_has_mono [OF write_group_grows [OF assms(2)]]
  show "is_ym ym \<and> partition_has ?s1 base_path v c ym" by simp
qed

lemma write_group_infos:
  assumes "countries_ok base_path s" and "infos_ok base_path s aff"
    and "merge_group s base_path g = Inr merged"
    and "is_ym (snd (fst g))" and "\<forall>r\<in>set (snd g). country r = Some (fst (fst g))"
  shows "infos_ok base_path (write_json s (group_path base_path g) (Reviews merged))
     (aff @ [group_info base_path g merged])"
proof -
  let ?s1 = "write_json s (group_path base_path g) (Reviews merged)"
  have old: "is_ym (info_ym info)
      \<and> (\<forall>r\<in>set (info_reviews info).
            partition_has ?s1 base_path (version_of r) (info_country info) (info_ym info))"
    if "info \<in> set aff" for info
    using that assms(2) partition_has_mono [OF write_group_grows [OF assms(3)]]
    unfolding infos_ok_def by blast
  have new: "partition_has ?s1 base_path (version_of r) (fst (fst g)) (snd (fst g))"
    if "r \<in> set merged" for r
  proof -
    have "?s1 (partition_path base_path (fst (fst g)) (snd (fst g)))
        = Some (Reviews (map json_review merged))"
      by (simp add: write_json_def group_path_def)
    moreover have "json_review r \<in> set (map json_review merged)"
      using that by simp
    moreover have "version_of (json_review r) = version_of r"
      "country (json_review r) = Some (fst (fst g))"
      using merge_group_countries [OF assms(1,3,4,5)] that by simp_all
    ultimately show ?thesis
      unfolding partition_has_iff by blast
  qed
  show ?thesis
    unfolding infos_ok_def
  proof
    fix info assume "info \<in> set (aff @ [group_info base_path g merged])"
    then consider "info \<in> set aff" | "info = group_info base_path g merged" by auto
    then show "is_ym (info_ym info)
      \<and> (\<forall>r\<in>set (info_reviews info).
            partition_has ?s1 base_path (version_of r) (info_country info) (info_ym info))"
    proof cases
      case 1
      then show ?thesis by (rule old)
    next
      case 2
      with new assms(4) show ?thesis by (simp add: group_info_def)
    qed
  qed
qed

lemma process_groups_inv:
  "process_groups s base_path gs aff = (e, s', aff') \<Longrightarrow>
   countries_ok base_path s \<Longrightarrow> index_sound base_path s \<Longrightarrow> infos_ok base_path s aff \<Longrightarrow>
   \<forall>g\<in>set gs. is_ym (snd (fst g)) \<and> (\<forall>r\<in>set (snd g). country r = Some (fst (fst g))) \<Longrightarrow>
     countries_ok base_path s' \<and> index_sound base_path s' \<and> infos_ok base_path s' aff'"
proof (induction gs arbitrary: s aff)
  case Nil
  then show ?case by simp
next
  case (Cons g gs)
  show ?case
  proof (cases "merge_group s base_path g")
    case (Inl err)
    with Cons.prems show ?thesis
      by (simp add: process_groups_Cons)
  next
    case (Inr merged)
    with Cons.prems(1) have rest:
      "process_groups (write_json s (group_path base_path g) (Reviews merged))
        base_path gs (aff @ [group_info base_path g merged]) = (e, s', aff')"
      by (simp add: process_groups_Cons)
    from Cons.prems(5) have g: "is_ym (snd (fst g))"
      "\<forall>r\<in>set (snd g). country r = Some (fst (fst g))"
      and gs: "\<forall>g\<in>set gs. is_ym (snd (fst g))
        \<and> (\<forall>r\<in>set (snd g). country r = Some (fst (fst g)))"
      by simp_all
    from Cons.IH [OF rest write_group_countries [OF Cons.prems(2) Inr g]
        write_group_index_sound [OF Cons.prems(3) Inr]
        write_group_infos [OF Cons.prems(2,4) Inr g] gs]
    show ?thesis .
  qed
qed

lemma groups_ok_countries:
  assumes "groups_ok fromiso gs"
  shows "\<forall>g\<in>set gs. is_ym (snd (fst g)) \<and> (\<forall>r\<in>set (snd g). country r = Some (fst (fst g)))"
proof (intro ballI conjI)
  fix g assume "g \<in> set gs"
  with assms show "is_ym (snd (fst g))"
    by (auto simp: groups_ok_def)
  fix r assume "r \<in> set (snd g)"
  with assms \<open>g \<in> set gs\<close> have "key_of fromiso r = Inr (fst (fst g), snd (fst g))"
    by (auto simp: groups_ok_def)
  from key_of_ym_length [OF this] show "country r = Some (fst (fst g))"
    by simp
qed

lemma update_index_inv:
  assumes "update_index now s infos base_path = (e, s')"
    and inv: "countries_ok base_path s" "index_sound base_path s" "infos_ok base_path s infos"
  shows "countries_ok base_path s' \<and> index_sound base_path s'"
proof (cases e)
  case (Some err)
  with assms(1) have "s' = s" by (simp add: update_index_Some)
  with inv show ?thesis by simp
next
  case None
  with assms(1) obtain idx where idx: "load_index s (index_path base_path) = Inr idx"
    "s' = s(index_path base_path \<mapsto>
       Index (idx\<lparr>versions := fold index_file infos (versions idx), updated_at := now\<rparr>))"
    by (auto elim: update_index_None)
  have part: "s' (partition_path base_path c ym) = s (partition_path base_path c ym)" for c ym
    using index_path_neq_partition_path [of base_path c ym] by (simp add: idx(2))
  then have ph: "partition_has s' base_path v c ym = partition_has s base_path v c ym" for v c ym
    by (simp add: partition_has_def read_json_def)
  from inv(1) part have "countries_ok base_path s'"
    by (simp add: countries_ok_def)
  moreover have "is_ym ym \<and> partition_has s base_path v c ym"
    if "index_has s' base_path v c ym" for v c ym
  proof -
    from that idx(2) have "in_versions (versions idx) v c ym
        \<or> (\<exists>info\<in>set infos. v \<in> version_of ` set (info_reviews info)
              \<and> c = info_country info \<and> ym = info_ym info)"
      by (simp add: index_has_def read_json_def in_versions_fold_index_file)
    then show ?thesis
    proof
      assume "in_versions (versions idx) v c ym"
      with idx(1) have "index_has s base_path v c ym"
        by (auto simp: index_has_def load_index_def in_versions_def
            split: option.splits doc.splits list.splits)
      with inv(2) show ?thesis by (simp add: index_sound_def)
    next
      assume "\<exists>info\<in>set infos. v \<in> version_of ` set (info_reviews info)
          \<and> c = info_country info \<and> ym = info_ym info"
      with inv(3) show ?thesis by (auto simp: infos_ok_def)
    qed
  qed
  ultimately show ?thesis
    by (simp add: index_sound_def ph)
qed

lemma save_reviews_inv:
  assumes "save_reviews fromiso now s reviews base_path = (e, s')"
    and inv: "countries_ok base_path s" "index_sound base_path s"
  shows "countries_ok base_path s' \<and> index_sound base_path s'"
proof (cases "group_reviews fromiso reviews []")
  case (Inl err)
  with assms show ?thesis by (simp add: save_reviews_def)
next
  case (Inr grouped)
  obtain e1 s1 aff where pg: "process_groups s base_path grouped [] = (e1, s1, aff)"
    by (metis prod_cases3)
  have ok: "infos_ok base_path s []"
    by (simp add: infos_ok_def)
  from groups_ok_countries [OF group_reviews_ok [OF Inr groups_ok_Nil]]
  have *: "countries_ok base_path s1 \<and> index_sound base_path s1 \<and> infos_ok base_path s1 aff"
    by (rule process_groups_inv [OF pg inv ok])
  show ?thesis
  proof (cases e1)
    case (Some err)
    with assms(1) Inr pg have "s' = s1" by (simp add: save_reviews_def)
    with * show ?thesis by simp
  next
    case None
    with assms(1) Inr pg have "update_index now s1 aff base_path = (e, s')"
      by (simp add: save_reviews_def)
    from update_index_inv [OF this] * show ?thesis by simp
  qed
qed

lemma ingest_runs_inv:
  "countries_ok base_path s \<Longrightarrow> index_sound base_path s \<Longrightarrow>
     countries_ok base_path (ingest_runs fromiso base_path s runs)
       \<and> index_sound base_path (ingest_runs fromiso base_path s runs)"
proof (induction runs arbitrary: s)
  case Nil
  then show ?case by simp
next
  case (Cons run runs)
  obtain now reviews where run: "run = (now, reviews)" by (cases run)
  from save_reviews_inv [OF prod.collapse [symmetric] Cons.prems]
  have "countries_ok base_path (snd (save_reviews fromiso now s reviews base_path))
      \<and> index_sound base_path (snd (save_reviews fromiso now s reviews base_path))" .
  with Cons.IH show ?case by (simp add: run)
qed



section \<open>Ingesting a batch twice\<close>

lemma existing_ids_total:
  "\<forall>r\<in>set rs. rid r \<noteq> None \<Longrightarrow> existing_ids rs = Inr {i. \<exists>r\<in>set rs. rid r = Some i}"
proof (induction rs)
  case Nil
  then show ?case by simp
next
  case (Cons r rs)
  then obtain i where "rid r = Some i" by auto
  moreover from Cons have "existing_ids rs = Inr {i. \<exists>r\<in>set rs. rid r = Some i}" by simp
  ultimately show ?case by auto
qed

lemma merge_new_all_known:
  "\<forall>n\<in>set new. \<exists>i. rid n = Some i \<and> i \<in> ids \<Longrightarrow> merge_new ids m new = Inr m"
  by (induction new) auto

lemma sorted_pair_all:
  assumes "sorted_wrt P ys" and "2 \<le> length ys" and "r \<in> set ys"
  shows "\<exists>r'\<in>set ys. P r r' \<or> P r' r"
proof -
  from assms(2) obtain y1 y2 rest where ys: "ys = y1 # y2 # rest"
    by (cases ys; cases "tl ys") auto
  show ?thesis
  proof (cases "r = y1")
    case True
    with assms(1) ys show ?thesis by auto
  next
    case False
    with assms(1,3) ys have "P y1 r" by auto
    with ys show ?thesis by auto
  qed
qed

lemma lt_dates_Some_json:
  "lt_dates (json_review a) (json_review b) = Some x \<Longrightarrow> is_str (json_review a)"
  by (auto simp: lt_dates_def is_str_def json_review_def
      split: option.splits date_val.splits elim!: json_date.elims)

lemma lt_dates_Some_json2:
  "lt_dates (json_review b) (json_review a) = Some x \<Longrightarrow> is_str (json_review a)"
  by (auto simp: lt_dates_def is_str_def json_review_def
      split: option.splits date_val.splits elim!: json_date.elims)

lemma sort_by_date_reverse_sorted_id:
  assumes "sorted_wrt (\<lambda>a b. lt_dates a b = Some False) ys"
    and "list_all (\<lambda>r. date r \<noteq> None) ys"
    and "2 \<le> length ys \<longrightarrow> list_all is_str ys"
  shows "sort_by_date_reverse ys = Inr ys"
proof (cases "length ys \<le> 1")
  case True
  with assms(2) show ?thesis by (simp add: sort_by_date_reverse_def)
next
  case False
  with assms(3) have str: "list_all is_str ys" by simp
  have "sorted_wrt (\<lambda>a b. str_key b \<le> str_key a) ys"
  proof (rule sorted_wrt_mono_rel [OF _ assms(1)])
    fix a b assume "a \<in> set ys" "b \<in> set ys" "lt_dates a b = Some False"
    with str lt_dates_str [of a b] show "str_key b \<le> str_key a"
      by (simp add: list_all_iff not_less)
  qed
  then have "sort_reverse str_key ys = ys" by (rule sort_reverse_id)
  with False assms(2) str show ?thesis by (simp add: sort_by_date_reverse_def)
qed

lemma sort_by_date_reverse_dates:
  "sort_by_date_reverse xs = Inr ys \<Longrightarrow> list_all (\<lambda>r. date r \<noteq> None) xs"
  by (cases "list_all (\<lambda>r. date r \<noteq> None) xs") (simp_all add: sort_by_date_reverse_def)

lemma order_kept_subset: "order_kept ys \<Longrightarrow> set xs \<subseteq> set ys \<Longrightarrow> order_kept xs"
  unfolding order_kept_def by blast

lemma sort_json_again:
  assumes "sort_by_date_reverse xs = Inr merged" and "order_kept xs"
  shows "sort_by_date_reverse (map json_review merged) = Inr (map json_review merged)"
proof (rule sort_by_date_reverse_sorted_id)
  have set: "set merged = set xs"
    using sort_by_date_reverse_mset [OF assms(1)] by (rule mset_eq_setD)
  have "sorted_wrt (\<lambda>a b. lt_dates (json_review a) (json_review b) = Some False) merged"
  proof (rule sorted_wrt_mono_rel [OF _ sort_by_date_reverse_sorted [OF assms(1)]])
    fix a b assume "a \<in> set merged" "b \<in> set merged" "lt_dates a b = Some False"
    with set have "a \<in> set xs" "b \<in> set xs" "lt_dates a b \<noteq> None" by simp_all
    with assms(2) have "lt_dates (json_review a) (json_review b) = lt_dates a b"
      unfolding order_kept_def by blast
    with \<open>lt_dates a b = Some False\<close>
    show "lt_dates (json_review a) (json_review b) = Some False" by simp
  qed
  then show s: "sorted_wrt (\<lambda>a b. lt_dates a b = Some False) (map json_review merged)"
    by (simp add: sorted_wrt_map)
  from assms(1) have "list_all (\<lambda>r. date r \<noteq> None) xs"
    by (rule sort_by_date_reverse_dates)
  with set show "list_all (\<lambda>r. date r \<noteq> None) (map json_review merged)"
    by (auto simp: list_all_iff json_review_def)
  show "2 \<le> length (map json_review merged) \<longrightarrow> list_all is_str (map json_review merged)"
  proof
    assume l: "2 \<le> length (map json_review merged)"
    have "is_str r" if "r \<in> set (map json_review merged)" for r
    proof -
      from sorted_pair_all [OF s l that] obtain r' where
        r': "r' \<in> set (map json_review merged)"
        "lt_dates r r' = Some False \<or> lt_dates r' r = Some False" by blast
      from that r'(1) obtain a b where "r = json_review a" "r' = json_review b" by auto
      with r'(2) lt_dates_Some_json [of a b False] lt_dates_Some_json2 [of b a False]
      show ?thesis by auto
    qed
    then show "list_all is_str (map json_review merged)"
      by (simp add: list_all_iff)
  qed
qed

lemma merge_partition_again:
  assumes "merge_partition [] new = Inr merged" and "order_kept new"
  shows "merge_partition (map json_review merged) new = Inr (map json_review merged)"
proof -
  from assms(1) obtain ids m where *: "existing_ids [] = Inr ids"
    "merge_new ids [] new = Inr m" "sort_by_date_reverse m = Inr merged"
    by (rule merge_partition_Inr)
  have set: "set merged = set m"
    using sort_by_date_reverse_mset [OF *(3)] by (rule mset_eq_setD)
  from merge_new_Inr [OF *(2)] have m: "set m \<subseteq> set new" "\<forall>r\<in>set m. rid r \<noteq> None"
    by auto
  let ?ids = "{i. \<exists>r\<in>set (map json_review merged). rid r = Some i}"
  from m(2) set have "existing_ids (map json_review merged) = Inr ?ids"
    by (intro existing_ids_total) auto
  moreover from merge_partition_sets(3) [OF assms(1)]
  have "\<forall>n\<in>set new. \<exists>i. rid n = Some i \<and> i \<in> ?ids"
    by fastforce
  then have "merge_new ?ids (map json_review merged) new = Inr (map json_review merged)"
    by (rule merge_new_all_known)
  moreover from order_kept_subset [OF assms(2) m(1)] *(3)
  have "sort_by_date_reverse (map json_review merged) = Inr (map json_review merged)"
    by (rule sort_json_again [rotated])
  ultimately show ?thesis
    by (simp add: merge_partition_def)
qed

lemma merge_group_cong:
  "s' (group_path base_path g) = s (group_path base_path g) \<Longrightarrow>
     merge_group s' base_path g = merge_group s base_path g"
  by (simp add: merge_group_def group_path_def load_existing_def read_json_def)

lemma json_info_group_info:
  "json_info (group_info base_path g merged) = group_info base_path g (map json_review merged)"
  by (simp add: json_info_def group_info_def)

lemma process_groups_again:
  "process_groups s base_path gs aff = (e, s', aff') \<Longrightarrow>
   distinct (map (group_path base_path) gs) \<Longrightarrow>
   \<forall>g\<in>set gs. s (group_path base_path g) = None \<and> order_kept (snd g) \<Longrightarrow>
     \<exists>infos. aff' = aff @ infos
       \<and> (\<forall>t aff2. (\<forall>g\<in>set gs. t (group_path base_path g) = s' (group_path base_path g)) \<longrightarrow>
             process_groups t base_path gs aff2 = (e, t, aff2 @ map json_info infos))"
proof (induction gs arbitrary: s aff)
  case Nil
  then show ?case by simp
next
  case (Cons g gs)
  from Cons.prems(3) have none: "s (group_path base_path g) = None" and kept: "order_kept (snd g)"
    by simp_all
  show ?case
  proof (cases "merge_group s base_path g")
    case (Inl err)
    with Cons.prems(1) have res: "e = Some err" "s' = s" "aff' = aff"
      by (simp_all add: process_groups_Cons)
    have "process_groups t base_path (g # gs) aff2 = (e, t, aff2 @ map json_info [])"
      if "\<forall>g\<in>set (g # gs). t (group_path base_path g) = s' (group_path base_path g)" for t aff2
    proof -
      from that res(2) have "merge_group t base_path g = Inl err"
        using merge_group_cong [of t base_path g s] Inl by simp
      then show ?thesis by (simp add: process_groups_Cons res(1))
    qed
    with res(3) show ?thesis by (intro exI [of _ "[]"]) simp
  next
    case (Inr merged)
    let ?s1 = "write_json s (group_path base_path g) (Reviews merged)"
    from Inr Cons.prems(1) have rest:
      "process_groups ?s1 base_path gs (aff @ [group_info base_path g merged]) = (e, s', aff')"
      by (simp add: process_groups_Cons)
    from Cons.prems(2) have d: "distinct (map (group_path base_path) gs)"
      and notin: "group_path base_path g \<notin> group_path base_path ` set gs"
      by simp_all
    have "\<forall>g'\<in>set gs. ?s1 (group_path base_path g') = None \<and> order_kept (snd g')"
    proof
      fix g' assume g': "g' \<in> set gs"
      with notin have "group_path base_path g' \<noteq> group_path base_path g"
        by (metis image_eqI)
      with Cons.prems(3) g' show "?s1 (group_path base_path g') = None \<and> order_kept (snd g')"
        by (simp add: write_json_def)
    qed
    from Cons.IH [OF rest d this] obtain infos where infos:
      "aff' = (aff @ [group_info base_path g merged]) @ infos"
      "\<And>t aff2. \<forall>g\<in>set gs. t (group_path base_path g) = s' (group_path base_path g) \<Longrightarrow>
          process_groups t base_path gs aff2 = (e, t, aff2 @ map json_info infos)"
      by blast
    from process_groups_frame' [OF rest notin]
    have s': "s' (group_path base_path g) = Some (Reviews (map json_review merged))"
      by (simp add: write_json_def)
    from Inr none have "merge_partition [] (snd g) = Inr merged"
      by (simp add: merge_group_def group_path_def load_existing_def read_json_def)
    from merge_partition_again [OF this kept]
    have again: "merge_partition (map json_review merged) (snd g) = Inr (map json_review merged)" .
    have "process_groups t base_path (g # gs) aff2
        = (e, t, aff2 @ map json_info (group_info base_path g merged # infos))"
      if t: "\<forall>g\<in>set (g # gs). t (group_path base_path g) = s' (group_path base_path g)"
      for t aff2
    proof -
      from t s' have tg: "t (group_path base_path g) = Some (Reviews (map json_review merged))"
        by simp
      with again have "merge_group t base_path g = Inr (map json_review merged)"
        by (simp add: merge_group_def group_path_def load_existing_def read_json_def)
      moreover from tg
      have "write_json t (group_path base_path g) (Reviews (map json_review merged)) = t"
        by (auto simp: write_json_def)
      moreover from t have "\<forall>g\<in>set gs. t (group_path base_path g) = s' (group_path base_path g)"
        by simp
      from infos(2) [OF this]
      have "process_groups t base_path gs (aff2 @ [group_info base_path g (map json_review merged)])
        = (e, t, (aff2 @ [group_info base_path g (map json_review merged)]) @ map json_info infos)" .
      ultimately show ?thesis
        by (simp add: process_groups_Cons json_info_group_info)
    qed
    with infos(1) show ?thesis
      by (intro exI [of _ "group_info base_path g merged # infos"]) simp
  qed
qed
lemma add_ym_present:
  assumes "in_versions vs v c ym"
  shows "add_ym c ym v vs = vs"
proof -
  from assms obtain m yms where m: "vs v = Some m" "m c = Some yms" "ym \<in> set yms"
    by (auto simp: in_versions_def split: option.splits)
  then have "m(c \<mapsto> yms) = m" "vs(v \<mapsto> m) = vs"
    by (simp_all add: map_upd_triv)
  with m show ?thesis
    by (simp add: add_ym_def)
qed

lemma fold_add_ym_present:
  "\<forall>v\<in>set vl. in_versions vs v c ym \<Longrightarrow> fold (add_ym c ym) vl vs = vs"
  by (induction vl) (simp_all add: add_ym_present)

lemma index_file_present:
  "\<forall>v\<in>version_of ` set (info_reviews info).
      in_versions vs v (info_country info) (info_ym info) \<Longrightarrow> index_file info vs = vs"
  by (simp add: index_file_def versions_in_file_def fold_add_ym_present)

lemma fold_index_file_present:
  "\<forall>info\<in>set infos. \<forall>v\<in>version_of ` set (info_reviews info).
      in_versions vs v (info_country info) (info_ym info) \<Longrightarrow> fold index_file infos vs = vs"
  by (induction infos) (simp_all add: index_file_present)

lemma fold_index_file_idem:
  "fold index_file infos (fold index_file infos vs) = fold index_file infos vs"
  by (rule fold_index_file_present) (auto simp: in_versions_fold_index_file)

lemma version_of_comp_json: "version_of \<circ> json_review = version_of"
  by (rule ext) simp

lemma index_file_json_info: "index_file (json_info info) = index_file info"
  by (rule ext)
    (simp add: index_file_def json_info_def versions_in_file_def version_of_comp_json)

lemma fold_index_file_json_info: "fold index_file (map json_info infos) = fold index_file infos"
  by (induction infos) (simp_all add: index_file_json_info)

lemma group_reviews_subset:
  assumes "group_reviews fromiso reviews [] = Inr grouped" and "g \<in> set grouped"
  shows "set (snd g) \<subseteq> set reviews"
proof
  fix r assume "r \<in> set (snd g)"
  with group_reviews_from [OF assms(1), of "fst g" "snd g" r] assms(2)
  show "r \<in> set reviews" by simp
qed

text \<open>
  C1 (as the code has it). For a batch whose dates keep their order when written,
  ingesting the batch a second time, on the store that the first ingestion into the empty
  store has left, ends as the first time (it returns, or raises the same exception) and
  leaves every partition document and the versions mapping of the index as they were.
  Only the \<^verbatim>\<open>updated_at\<close> stamp of the index document is new when the run returns; when
  it raises, the store is unchanged.
\<close>

theorem save_reviews_twice:
  assumes "order_kept reviews"
    and "save_reviews fromiso t1 Map.empty reviews base_path = (e1, s1)"
    and "save_reviews fromiso t2 s1 reviews base_path = (e2, s2)"
  shows "e2 = e1 \<and> (e1 \<noteq> None \<longrightarrow> s2 = s1)
     \<and> (e1 = None \<longrightarrow>
          (\<exists>idx. s1 (index_path base_path) = Some (Index idx)
             \<and> s2 = s1(index_path base_path \<mapsto> Index (idx\<lparr>updated_at := t2\<rparr>))))"
proof (cases "group_reviews fromiso reviews []")
  case (Inl err)
  with assms(2) have "e1 = Some err" "s1 = Map.empty"
    by (simp_all add: save_reviews_def)
  moreover from Inl assms(3) have "e2 = Some err" "s2 = s1"
    by (simp_all add: save_reviews_def)
  ultimately show ?thesis by simp
next
  case (Inr grouped)
  obtain pe sp aff where pg: "process_groups Map.empty base_path grouped [] = (pe, sp, aff)"
    by (metis prod_cases3)
  have d: "distinct (map (group_path base_path) grouped)"
    using group_reviews_ok [OF Inr groups_ok_Nil] by (rule groups_ok_distinct_paths)
  have "\<forall>g\<in>set grouped. Map.empty (group_path base_path g) = None \<and> order_kept (snd g)"
    using order_kept_subset [OF assms(1) group_reviews_subset [OF Inr]] by simp
  from process_groups_again [OF pg d this] obtain infos where
    aff: "aff = infos" and again:
    "\<And>t aff2. \<forall>g\<in>set grouped. t (group_path base_path g) = sp (group_path base_path g) \<Longrightarrow>
        process_groups t base_path grouped aff2 = (pe, t, aff2 @ map json_info infos)"
    by auto
  show ?thesis
  proof (cases pe)
    case (Some err)
    with assms(2) Inr pg have 1: "e1 = Some err" "s1 = sp"
      by (simp_all add: save_reviews_def)
    from again [of sp "[]"] Some
    have "process_groups sp base_path grouped [] = (Some err, sp, map json_info infos)"
      by simp
    with assms(3) Inr 1 have "e2 = Some err" "s2 = s1"
      by (simp_all add: save_reviews_def)
    with 1 show ?thesis by simp
  next
    case None
    from process_groups_index_frame [OF pg] have "sp (index_path base_path) = None"
      by simp
    then have "load_index sp (index_path base_path)
        = Inr \<lparr>versions = Map.empty, updated_at = []\<rparr>"
      by (simp add: load_index_def read_json_def)
    with assms(2) Inr pg None have 1: "e1 = None"
      "s1 = sp(index_path base_path \<mapsto>
         Index \<lparr>versions = fold index_file aff Map.empty, updated_at = t1\<rparr>)"
      by (simp_all add: save_reviews_def update_index_def write_json_def)
    let ?idx = "\<lparr>versions = fold index_file aff Map.empty, updated_at = t1\<rparr>"
    have "group_path base_path g \<noteq> index_path base_path" for g
      using index_path_neq_partition_path [of base_path "fst (fst g)" "snd (fst g)"]
      by (simp add: group_path_def)
    then have "\<forall>g\<in>set grouped. s1 (group_path base_path g) = sp (group_path base_path g)"
      by (simp add: 1(2))
    from again [OF this, of "[]"] None
    have "process_groups s1 base_path grouped [] = (None, s1, map json_info aff)"
      by (simp add: aff)
    with assms(3) Inr have "update_index t2 s1 (map json_info aff) base_path = (e2, s2)"
      by (simp add: save_reviews_def)
    moreover have "load_index s1 (index_path base_path) = Inr ?idx"
      by (simp add: load_index_def read_json_def 1(2))
    ultimately have 2: "e2 = None"
      "s2 = s1(index_path base_path \<mapsto> Index (?idx\<lparr>updated_at := t2\<rparr>))"
      by (simp_all add: update_index_def write_json_def fold_index_file_json_info
          fold_index_file_idem)
    have "s1 (index_path base_path) = Some (Index ?idx)"
      by (simp add: 1(2))
    with 1(1) 2 show ?thesis by blast
  qed
qed

theorem save_reviews_twice_witness:
  "order_kept [review_d, review_e, review_b]
   \<and> fst (save_reviews fromiso_date ''t1'' Map.empty [review_d, review_e, review_b] ''reviews'')
       = None
   \<and> snd (save_reviews fromiso_date ''t2''
             (snd (save_reviews fromiso_date ''t1'' Map.empty [review_d, review_e, review_b]
                     ''reviews''))
             [review_d, review_e, review_b] ''reviews'') ''reviews/jp/2024/05.json''
       = snd (save_reviews fromiso_date ''t1'' Map.empty [review_d, review_e, review_b]
                ''reviews'') ''reviews/jp/2024/05.json''"
proof -
  let ?batch = "[review_d, review_e, review_b]"
  let ?r1 = "save_reviews fromiso_date ''t1'' Map.empty ?batch ''reviews''"
  let ?r2 = "save_reviews fromiso_date ''t2'' (snd ?r1) ?batch ''reviews''"
  have k: "order_kept ?batch"
    by (simp add: order_kept_def lt_dates_def json_review_def review_d_def review_e_def
        review_b_def str_datetime_def str_offset_def pad6_def pad4_def pad2_def digit_def
        instant_def ymd2ord_def days_before_year_def days_before_month_def Let_def)
  have f: "fst ?r1 = None"
    by (simp add: run_defs review_d_def review_e_def review_b_def instant_def ymd2ord_def
        days_before_year_def days_before_month_def Let_def)
  from save_reviews_twice [OF k prod.collapse [symmetric, of ?r1]
      prod.collapse [symmetric, of ?r2]] f
  obtain idx where "snd ?r2 = (snd ?r1)(index_path ''reviews'' \<mapsto> Index (idx\<lparr>updated_at := ''t2''\<rparr>))"
    by auto
  then have "snd ?r2 ''reviews/jp/2024/05.json'' = snd ?r1 ''reviews/jp/2024/05.json''"
    by (simp add: index_path_def)
  with k f show ?thesis by blast
qed

text \<open>A batch without datetime objects (all dates strings) keeps its order.\<close>

lemma order_kept_strings:
  assumes "\<forall>r\<in>set reviews. \<forall>dt. date r \<noteq> Some (DTime dt)"
  shows "order_kept reviews"
proof -
  have "json_review r = r" if "r \<in> set reviews" for r
  proof -
    from assms that have "map_option json_date (date r) = date r"
      by (cases "date r"; cases "the (date r)") auto
    then show ?thesis by (simp add: json_review_def)
  qed
  then show ?thesis by (simp add: order_kept_def)
qed

text \<open>
  C1 as stated fails twice over. The index document of the second run carries a new
  stamp (first batch). And datetimes of different UTC offsets are sorted by the moment
  they denote in the first run, but as strings in the second, which reads them back from
  the partition document: the second run reverses the partition (second batch).
\<close>

theorem save_reviews_twice_counterexample:
  "save_reviews fromiso_date ''t1'' Map.empty [review_a] ''reviews'' = (None, store_a)
   \<and> store_a (index_path ''reviews'') = Some (Index index_a)
   \<and> snd (save_reviews fromiso_date ''t2'' store_a [review_a] ''reviews'') (index_path ''reviews'')
       = Some (Index (index_a\<lparr>updated_at := ''t2''\<rparr>))
   \<and> index_a\<lparr>updated_at := ''t2''\<rparr> \<noteq> index_a
   \<and> snd (save_reviews fromiso_date ''t1'' Map.empty [review_v, review_w] ''reviews'')
        ''reviews/jp/2024/05.json''
       = Some (Reviews [json_review review_w, json_review review_v])
   \<and> snd (save_reviews fromiso_date ''t2''
             (snd (save_reviews fromiso_date ''t1'' Map.empty [review_v, review_w] ''reviews''))
             [review_v, review_w] ''reviews'')
        ''reviews/jp/2024/05.json''
       = Some (Reviews [json_review review_v, json_review review_w])"
proof -
  have 1: "store_a (index_path ''reviews'') = Some (Index index_a)"
    by (simp add: store_a_def index_path_def)
  have 2: "snd (save_reviews fromiso_date ''t2'' store_a [review_a] ''reviews'')
      (index_path ''reviews'') = Some (Index (index_a\<lparr>updated_at := ''t2''\<rparr>))"
    by (simp add: run_defs store_a_def index_a_def review_a_def Let_def)
  have 3: "index_a\<lparr>updated_at := ''t2''\<rparr> \<noteq> index_a"
  proof
    assume "index_a\<lparr>updated_at := ''t2''\<rparr> = index_a"
    then have "updated_at (index_a\<lparr>updated_at := ''t2''\<rparr>) = updated_at index_a" by simp
    then show False by (simp add: index_a_def)
  qed
  have 4: "save_reviews fromiso_date ''t1'' Map.empty [review_v, review_w] ''reviews''
      = (None, [''reviews/jp/2024/05.json'' \<mapsto> Reviews [json_review review_w, json_review review_v],
                ''reviews/index.json'' \<mapsto> Index \<lparr>versions =
                   [''1.0'' \<mapsto> [''jp'' \<mapsto> [''2024/05'']], ''1.1'' \<mapsto> [''jp'' \<mapsto> [''2024/05'']]],
                   updated_at = ''t1''\<rparr>])"
    by (simp add: run_defs review_v_def review_w_def dt_w_def instant_def ymd2ord_def
        days_before_year_def days_before_month_def Let_def)
  have 5: "snd (save_reviews fromiso_date ''t2''
         [''reviews/jp/2024/05.json'' \<mapsto> Reviews [json_review review_w, json_review review_v],
          ''reviews/index.json'' \<mapsto> Index \<lparr>versions =
             [''1.0'' \<mapsto> [''jp'' \<mapsto> [''2024/05'']], ''1.1'' \<mapsto> [''jp'' \<mapsto> [''2024/05'']]],
             updated_at = ''t1''\<rparr>]
         [review_v, review_w] ''reviews'') ''reviews/jp/2024/05.json''
      = Some (Reviews [json_review review_v, json_review review_w])"
    by (simp add: run_defs review_v_def review_w_def dt_w_def str_datetime_def str_offset_def
        Let_def)
  from scenario_a 1 2 3 4 5 show ?thesis by simp
qed

section \<open>The order in which a file's versions are indexed\<close>

lemma add_ym_commute:
  "add_ym c ym v (add_ym c ym v' vs) = add_ym c ym v' (add_ym c ym v vs)"
proof (cases "v = v'")
  case True
  then show ?thesis by simp
next
  case False
  then show ?thesis
    by (simp add: add_ym_def Let_def fun_upd_twist)
qed

text \<open>
  \<^verbatim>\<open>versions_in_file\<close> is a set and Python walks it in an order of its own: every
  enumeration of the set gives the same index.
\<close>

lemma index_file_order:
  assumes "distinct vl" and "set vl = version_of ` set (info_reviews info)"
  shows "fold (add_ym (info_country info) (info_ym info)) vl vs = index_file info vs"
proof -
  let ?f = "add_ym (info_country info) (info_ym info)"
  have "mset vl = mset (versions_in_file (info_reviews info))"
    using assms by (simp add: set_eq_iff_mset_eq_distinct [symmetric] versions_in_file_def)
  moreover have "?f x \<circ> ?f y = ?f y \<circ> ?f x" for x y
    by (rule ext) (simp add: add_ym_commute)
  ultimately have "fold ?f vl = fold ?f (versions_in_file (info_reviews info))"
    by (intro fold_multiset_equiv) auto
  then show ?thesis by (simp add: index_file_def)
qed

text \<open>A date of the year 999 is filed under \<^verbatim>\<open>999/05\<close>.\<close>

lemma strftime_ym_999:
  "strftime_ym \<lparr>year = 999, month = 5, day = 1, hour = 0, minute = 0, second = 0,
     microsecond = 0, tz = None\<rparr> = ''999/05''"
  by (simp add: strftime_ym_def dec.simps pad2_def digit_def)

section \<open>Where a record is stored\<close>

lemma group_add_map_of:
  "map_of (group_add key r g) k =
     (if k = key then Some ((case map_of g key of None \<Rightarrow> [] | Some old \<Rightarrow> old) @ [r])
      else map_of g k)"
  by (induction key r g rule: group_add.induct) auto

lemma group_reviews_map_of:
  "group_reviews fromiso reviews g = Inr grouped \<Longrightarrow>
     map_of grouped k =
       (if map_of g k = None \<and> filter (\<lambda>m. key_of fromiso m = Inr k) reviews = [] then None
        else Some ((case map_of g k of None \<Rightarrow> [] | Some old \<Rightarrow> old)
                     @ filter (\<lambda>m. key_of fromiso m = Inr k) reviews))"
proof (induction reviews arbitrary: g)
  case Nil
  then show ?case by (auto split: option.splits)
next
  case (Cons r reviews)
  from Cons.prems obtain key where key: "key_of fromiso r = Inr key"
    "group_reviews fromiso reviews (group_add key r g) = Inr grouped"
    by (auto split: sum.splits)
  from Cons.IH [OF key(2)] key(1) show ?case
    by (auto simp: group_add_map_of split: option.splits)
qed

lemma group_reviews_filter:
  assumes "group_reviews fromiso reviews [] = Inr grouped" and "(k, new) \<in> set grouped"
  shows "new = filter (\<lambda>m. key_of fromiso m = Inr k) reviews"
proof -
  from group_reviews_ok [OF assms(1) groups_ok_Nil] have "distinct (map fst grouped)"
    by (simp add: groups_ok_def)
  with assms(2) have "map_of grouped k = Some new" by simp
  with group_reviews_map_of [OF assms(1), of k] show ?thesis
    by (simp split: if_splits)
qed

lemma merge_new_first:
  "merge_new ids merged (a @ n # b) = Inr m \<Longrightarrow> rid n = Some i \<Longrightarrow> i \<notin> ids \<Longrightarrow>
   \<forall>x\<in>set a. rid x \<noteq> Some i \<Longrightarrow> n \<in> set m"
proof (induction a arbitrary: ids merged)
  case Nil
  then have "merge_new (insert i ids) (merged @ [n]) b = Inr m" by simp
  from merge_new_Inr [OF this] show ?case by auto
next
  case (Cons x a)
  from Cons.prems(1) obtain j where j: "rid x = Some j"
    by (auto split: option.splits)
  with Cons.prems(4) have ji: "j \<noteq> i" by auto
  from Cons.prems(4) have a: "\<forall>x\<in>set a. rid x \<noteq> Some i" by simp
  show ?case
  proof (cases "j \<in> ids")
    case True
    with Cons.prems(1) j have "merge_new ids merged (a @ n # b) = Inr m" by simp
    from Cons.IH [OF this Cons.prems(2,3) a] show ?thesis .
  next
    case False
    with Cons.prems(1) j have "merge_new (insert j ids) (merged @ [x]) (a @ n # b) = Inr m"
      by simp
    moreover from ji Cons.prems(3) have "i \<notin> insert j ids" by simp
    ultimately show ?thesis
      using Cons.IH Cons.prems(2) a by blast
  qed
qed

lemma merge_partition_first:
  assumes "merge_partition existing (a @ n # b) = Inr merged" and "rid n = Some i"
    and "\<forall>r\<in>set existing. rid r \<noteq> Some i" and "\<forall>x\<in>set a. rid x \<noteq> Some i"
  shows "n \<in> set merged"
proof -
  from assms(1) obtain ids m where *: "existing_ids existing = Inr ids"
    "merge_new ids existing (a @ n # b) = Inr m" "sort_by_date_reverse m = Inr merged"
    by (rule merge_partition_Inr)
  from existing_ids_Inr [OF *(1)] assms(3) have "i \<notin> ids" by auto
  from merge_new_first [OF *(2) assms(2) this assms(4)] have "n \<in> set m" .
  moreover have "set merged = set m"
    using sort_by_date_reverse_mset [OF *(3)] by (rule mset_eq_setD)
  ultimately show ?thesis by simp
qed

lemma process_groups_written_merge:
  "process_groups s base_path gs aff = (None, s', aff') \<Longrightarrow>
   distinct (map (group_path base_path) gs) \<Longrightarrow> g \<in> set gs \<Longrightarrow>
     \<exists>merged. merge_group s base_path g = Inr merged
       \<and> s' (group_path base_path g) = Some (Reviews (map json_review merged))"
proof (induction gs arbitrary: s aff)
  case Nil
  then show ?case by simp
next
  case (Cons g' gs)
  from Cons.prems(1) obtain merged where merged: "merge_group s base_path g' = Inr merged"
    and rest: "process_groups (write_json s (group_path base_path g') (Reviews merged))
        base_path gs (aff @ [group_info base_path g' merged]) = (None, s', aff')"
    by (auto simp: process_groups_Cons split: sum.splits)
  from Cons.prems(2) have notin: "group_path base_path g' \<notin> group_path base_path ` set gs"
    and d: "distinct (map (group_path base_path) gs)"
    by simp_all
  show ?case
  proof (cases "g = g'")
    case True
    from process_groups_frame' [OF rest notin]
    have "s' (group_path base_path g') = Some (Reviews (map json_review merged))"
      by (simp add: write_json_def)
    with merged True show ?thesis by blast
  next
    case False
    with Cons.prems(3) have g: "g \<in> set gs" by simp
    from Cons.IH [OF rest d g] obtain m where
      m: "merge_group (write_json s (group_path base_path g') (Reviews merged)) base_path g = Inr m"
      "s' (group_path base_path g) = Some (Reviews (map json_review m))"
      by blast
    from g notin have "group_path base_path g \<noteq> group_path base_path g'"
      by (metis image_eqI)
    then have "write_json s (group_path base_path g') (Reviews merged) (group_path base_path g)
        = s (group_path base_path g)"
      by (simp add: write_json_def)
    from merge_group_cong [of "write_json s (group_path base_path g') (Reviews merged)"
        base_path g s, OF this] m(1)
    have "merge_group s base_path g = Inr m" by simp
    with m(2) show ?thesis by blast
  qed
qed

text \<open>
  C8 (as the code has it). After an ingestion run that returns, every record of the
  batch has a record with its id in the partition document at
  \<^verbatim>\<open>{base_path}/{country}/{YYYY}/{MM}.json\<close>, where the country is the record's country
  field and the year-month is what \<^verbatim>\<open>strftime('%Y/%m')\<close> prints for its date as given (a
  string date as \<^verbatim>\<open>fromisoformat\<close> reads it), with no conversion to UTC. When that
  partition held no record with this id before the run and no earlier record of the batch
  for the same partition carries it, it is the record itself that is stored there: every
  field as given, a datetime date as its string.
\<close>

theorem save_reviews_partition_of_record:
  assumes "save_reviews fromiso now s (pre @ n # post) base_path = (None, s')"
  shows "\<exists>c ym i d. country n = Some c \<and> ym_of fromiso n = Inr ym \<and> rid n = Some i
     \<and> date n = Some d
     \<and> id_stored s' base_path c ym i
     \<and> (\<not> id_stored s base_path c ym i
          \<and> (\<forall>m\<in>set pre. key_of fromiso m = Inr (c, ym) \<longrightarrow> rid m \<noteq> Some i)
        \<longrightarrow> record_stored s' base_path c ym (n\<lparr>date := Some (json_date d)\<rparr>))"
proof -
  let ?reviews = "pre @ n # post"
  from assms obtain grouped s1 aff where run:
    "group_reviews fromiso ?reviews [] = Inr grouped"
    "process_groups s base_path grouped [] = (None, s1, aff)"
    "update_index now s1 aff base_path = (None, s')"
    by (rule save_reviews_None)
  from group_reviews_mem [OF run(1), of n] obtain k new where
    k: "key_of fromiso n = Inr k" "(k, new) \<in> set grouped" by auto
  obtain c ym where cym: "k = (c, ym)" by (cases k)
  let ?p = "partition_path base_path c ym"
  from k(1) cym have key: "country n = Some c" "ym_of fromiso n = Inr ym"
    by (auto simp: key_of_def split: sum.splits option.splits)
  from key(2) obtain d where d: "date n = Some d"
    by (auto simp: ym_of_def split: option.splits)
  have new: "new = filter (\<lambda>m. key_of fromiso m = Inr k) pre @ n
      # filter (\<lambda>m. key_of fromiso m = Inr k) post"
    using group_reviews_filter [OF run(1) k(2)] k(1) by simp
  have dist: "distinct (map (group_path base_path) grouped)"
    using group_reviews_ok [OF run(1) groups_ok_Nil] by (rule groups_ok_distinct_paths)
  from process_groups_written_merge [OF run(2) dist k(2)] obtain merged where
    merged: "merge_group s base_path (k, new) = Inr merged"
    "s1 ?p = Some (Reviews (map json_review merged))"
    by (auto simp: group_path_def cym)
  from merged(1) obtain existing where ex: "load_existing s ?p = Inr existing"
    "merge_partition existing new = Inr merged"
    by (auto elim!: merge_group_Inr simp: group_path_def cym)
  from run(3) have s': "s' ?p = Some (Reviews (map json_review merged))"
    using index_path_neq_partition_path [of base_path c ym] merged(2)
    by (auto elim!: update_index_None)
  from merge_partition_sets(3) [OF ex(2)] new obtain i r where
    i: "rid n = Some i" "r \<in> set merged" "rid r = Some i" by auto
  from i(2,3) have "list_ex (\<lambda>r. rid r = Some i) (map json_review merged)"
    by (auto simp: list_ex_iff)
  with s' have stored: "id_stored s' base_path c ym i"
    by (simp add: id_stored_def read_json_def)
  have "record_stored s' base_path c ym (n\<lparr>date := Some (json_date d)\<rparr>)"
    if fresh: "\<not> id_stored s base_path c ym i"
      "\<forall>m\<in>set pre. key_of fromiso m = Inr (c, ym) \<longrightarrow> rid m \<noteq> Some i"
  proof -
    from load_existing_Inr [OF ex(1)] fresh(1) have "\<forall>r\<in>set existing. rid r \<noteq> Some i"
      by (auto simp: id_stored_def read_json_def list_ex_iff)
    moreover from fresh(2) cym
    have "\<forall>x\<in>set (filter (\<lambda>m. key_of fromiso m = Inr k) pre). rid x \<noteq> Some i"
      by simp
    ultimately have "n \<in> set merged"
      using merge_partition_first [OF ex(2) [unfolded new] i(1)] by blast
    then have "json_review n \<in> set (map json_review merged)" by simp
    moreover from d have "json_review n = n\<lparr>date := Some (json_date d)\<rparr>"
      by (simp add: json_review_def)
    ultimately show ?thesis
      using s' by (simp add: record_stored_def read_json_def)
  qed
  with key i(1) d stored show ?thesis by blast
qed

theorem save_reviews_partition_of_record_witness:
  "save_reviews fromiso_date ''t2'' store_a ([review_a2] @ review_b # []) ''reviews''
     = (None, snd (save_reviews fromiso_date ''t2'' store_a [review_a2, review_b] ''reviews''))
   \<and> ym_of fromiso_date review_b = Inr ''2024/06''
   \<and> \<not> id_stored store_a ''reviews'' ''jp'' ''2024/06'' ''b''
   \<and> record_stored (snd (save_reviews fromiso_date ''t2'' store_a [review_a2, review_b] ''reviews''))
        ''reviews'' ''jp'' ''2024/06'' review_b"
proof -
  let ?r = "save_reviews fromiso_date ''t2'' store_a [review_a2, review_b] ''reviews''"
  have f: "fst ?r = None"
    by (simp add: run_defs store_a_def index_a_def review_a_def review_a2_def review_b_def
        Let_def)
  then have h: "save_reviews fromiso_date ''t2'' store_a ([review_a2] @ review_b # []) ''reviews''
      = (None, snd ?r)"
    by (metis append_Cons append_Nil prod.collapse)
  have y: "ym_of fromiso_date review_b = Inr ''2024/06''"
    by (simp add: run_defs review_b_def)
  have n: "\<not> id_stored store_a ''reviews'' ''jp'' ''2024/06'' ''b''"
    by (simp add: id_stored_def read_json_def partition_path_def store_a_def)
  have p: "\<forall>m\<in>set [review_a2]. key_of fromiso_date m = Inr (''jp'', ''2024/06'') \<longrightarrow>
      rid m \<noteq> Some ''b''"
    by (simp add: review_a2_def)
  have b: "rid review_b = Some ''b''" "country review_b = Some ''jp''"
    "date review_b = Some (DStr ''2024-06-15'')"
    by (simp_all add: review_b_def)
  have e: "review_b\<lparr>date := Some (json_date (DStr ''2024-06-15''))\<rparr> = review_b"
    by (simp add: review_b_def)
  from save_reviews_partition_of_record [OF h] obtain c ym i d where
    *: "country review_b = Some c" "ym_of fromiso_date review_b = Inr ym"
    "rid review_b = Some i" "date review_b = Some d"
    "\<not> id_stored store_a ''reviews'' c ym i
       \<and> (\<forall>m\<in>set [review_a2]. key_of fromiso_date m = Inr (c, ym) \<longrightarrow> rid m \<noteq> Some i)
     \<longrightarrow> record_stored (snd ?r) ''reviews'' c ym (review_b\<lparr>date := Some (json_date d)\<rparr>)"
    by blast
  from *(1-4) b y have "c = ''jp''" "ym = ''2024/06''" "i = ''b''" "d = DStr ''2024-06-15''"
    by simp_all
  with *(5) n p have "record_stored (snd ?r) ''reviews'' ''jp'' ''2024/06''
      (review_b\<lparr>date := Some (json_date (DStr ''2024-06-15''))\<rparr>)"
    by blast
  then have "record_stored (snd ?r) ''reviews'' ''jp'' ''2024/06'' review_b"
    by (simp only: e)
  with h y n show ?thesis by blast
qed

text \<open>
  C8 as stated fails. The year-month is not taken at UTC: \<open>review_w\<close> is stored under
  \<^verbatim>\<open>2024/05\<close>, the month of its own wall clock, and not under \<^verbatim>\<open>2024/06\<close>, the month of
  the same moment in UTC. A record whose id the partition already holds is not stored:
  after \<open>review_a2\<close> went in, the partition holds \<open>review_a\<close> alone. And a run that raises
  stores nothing of its partition: \<open>review_d\<close> is not in the store after the run.
\<close>

theorem save_reviews_partition_of_record_counterexample:
  "fst (save_reviews fromiso_date ''t1'' Map.empty [review_w] ''reviews'') = None
   \<and> snd (save_reviews fromiso_date ''t1'' Map.empty [review_w] ''reviews'')
       ''reviews/jp/2024/05.json''
       = Some (Reviews [review_w\<lparr>date := Some (DStr ''2024-05-31 23:30:00-07:00'')\<rparr>])
   \<and> snd (save_reviews fromiso_date ''t1'' Map.empty [review_w] ''reviews'')
       ''reviews/jp/2024/06.json'' = None
   \<and> date review_w = Some (DTime dt_w)
   \<and> instant dt_w_utc = instant dt_w \<and> tz dt_w_utc = Some 0
   \<and> strftime_ym dt_w_utc = ''2024/06''
   \<and> fst (save_reviews fromiso_date ''t2'' store_a [review_a2] ''reviews'') = None
   \<and> snd (save_reviews fromiso_date ''t2'' store_a [review_a2] ''reviews'')
       ''reviews/jp/2024/05.json'' = Some (Reviews [review_a])
   \<and> review_a2 \<noteq> review_a
   \<and> save_reviews fromiso_date ''t2'' store_a [review_d] ''reviews'' = (Some TypeError, store_a)
   \<and> store_a ''reviews/jp/2024/05.json'' = Some (Reviews [review_a])"
proof -
  have 1: "fst (save_reviews fromiso_date ''t1'' Map.empty [review_w] ''reviews'') = None
   \<and> snd (save_reviews fromiso_date ''t1'' Map.empty [review_w] ''reviews'')
       ''reviews/jp/2024/05.json''
       = Some (Reviews [review_w\<lparr>date := Some (DStr ''2024-05-31 23:30:00-07:00'')\<rparr>])
   \<and> snd (save_reviews fromiso_date ''t1'' Map.empty [review_w] ''reviews'')
       ''reviews/jp/2024/06.json'' = None"
    by (simp add: run_defs review_w_def dt_w_def str_datetime_def str_offset_def Let_def)
  have 2: "date review_w = Some (DTime dt_w) \<and> instant dt_w_utc = instant dt_w
      \<and> tz dt_w_utc = Some 0 \<and> strftime_ym dt_w_utc = ''2024/06''"
    by (simp add: review_w_def dt_w_def dt_w_utc_def instant_def ymd2ord_def
        days_before_year_def days_before_month_def is_leap_def strftime_ym_def dec.simps
        pad2_def digit_def Let_def)
  have 3: "fst (save_reviews fromiso_date ''t2'' store_a [review_a2] ''reviews'') = None
   \<and> snd (save_reviews fromiso_date ''t2'' store_a [review_a2] ''reviews'')
       ''reviews/jp/2024/05.json'' = Some (Reviews [review_a])"
    by (simp add: run_defs store_a_def index_a_def review_a_def review_a2_def Let_def)
  have 4: "review_a2 \<noteq> review_a"
    by (simp add: review_a_def review_a2_def)
  have 5: "save_reviews fromiso_date ''t2'' store_a [review_d] ''reviews'' = (Some TypeError, store_a)
   \<and> store_a ''reviews/jp/2024/05.json'' = Some (Reviews [review_a])"
    by (simp add: run_defs store_a_def index_a_def review_a_def review_d_def)
  from 1 2 3 4 5 show ?thesis by blast
qed

section \<open>The order of a written partition\<close>


end
